theory Spec2Isabelle
  imports Main "HOL-Library.Word"
begin

section \<open>Data model of \<^verbatim>\<open>nix_tcp.hpp\<close>\<close>

type_synonym byte = "8 word"
type_synonym bytes = "byte list"

text \<open>\<^verbatim>\<open>struct TcpError { int code; std::string message; }\<close>: the value every method throws.\<close>

record TcpError =
  code :: int
  message :: string

text \<open>
  \<^verbatim>\<open>class TcpSocket\<close>: the two optional file descriptors and the packet length, a
  \<^verbatim>\<open>uint8_t\<close>.
\<close>

record TcpSocket =
  sockfd :: "int option"
  remote_sockfd :: "int option"
  packet_len :: byte

text \<open>
  A method either returns, throws a \<^verbatim>\<open>TcpError\<close>, or leaves defined behaviour:
  \<open>OutOfRange\<close> marks an \<^verbatim>\<open>operator[]\<close> access outside a \<^verbatim>\<open>std::vector\<close>,
  \<open>SignedOverflow\<close> an overflow of the \<^verbatim>\<open>int\<close> variable \<^verbatim>\<open>offset\<close>. After either of the
  two the C++ program has no defined behaviour; the model stops there.
\<close>

datatype failure = Thrown TcpError | OutOfRange | SignedOverflow

definition TcpSocket_new :: "byte \<Rightarrow> TcpSocket" where
  "TcpSocket_new pl = \<lparr>sockfd = None, remote_sockfd = None, packet_len = pl\<rparr>"

definition TcpSocket_default :: TcpSocket where
  "TcpSocket_default = TcpSocket_new 64"

definition is_bound :: "TcpSocket \<Rightarrow> bool" where
  "is_bound s = (sockfd s \<noteq> None)"

definition is_connected :: "TcpSocket \<Rightarrow> bool" where
  "is_connected s = (remote_sockfd s \<noteq> None)"

subsection \<open>The errors the methods throw\<close>

text \<open>
  The source distinguishes its errors by code and message only. The names below are the
  error kinds of the specification, each defined as the struct the source throws at the
  corresponding place.
\<close>

definition AlreadyBound :: TcpError where
  "AlreadyBound = \<lparr>code = -1, message = ''socket already bound''\<rparr>"

definition NotBound :: TcpError where
  "NotBound = \<lparr>code = -2, message = ''socket unbound''\<rparr>"

definition AlreadyConnected :: TcpError where
  "AlreadyConnected = \<lparr>code = -1, message = ''socket already connected''\<rparr>"

definition NotConnected :: TcpError where
  "NotConnected = \<lparr>code = -2, message = ''socket disconnected''\<rparr>"

definition ResolutionFailed :: "int \<Rightarrow> string \<Rightarrow> TcpError" where
  "ResolutionFailed gai_ret gai_msg = \<lparr>code = gai_ret, message = gai_msg\<rparr>"

definition SockOptFailed :: "int \<Rightarrow> TcpError" where
  "SockOptFailed errno = \<lparr>code = errno, message = ''couldn't set socket options''\<rparr>"

definition BindFailed :: TcpError where
  "BindFailed = \<lparr>code = 1, message = ''couldn't bind to any address''\<rparr>"

definition ListenFailed :: "int \<Rightarrow> TcpError" where
  "ListenFailed errno = \<lparr>code = errno, message = ''couldn't listen for connections''\<rparr>"

definition ConnectFailed :: TcpError where
  "ConnectFailed = \<lparr>code = 1, message = ''couldn't connect to any address''\<rparr>"

definition WriteFailed :: "int \<Rightarrow> TcpError" where
  "WriteFailed errno = \<lparr>code = errno, message = ''couldn't send data''\<rparr>"

text \<open>The receive path reuses the message of the send path for its I/O error.\<close>

definition ReadFailed :: "int \<Rightarrow> TcpError" where
  "ReadFailed errno = \<lparr>code = errno, message = ''couldn't send data''\<rparr>"

definition ShortRead :: TcpError where
  "ShortRead = \<lparr>code = 1, message = ''invalid received packet length''\<rparr>"

section \<open>The operating system, as far as the methods observe it\<close>

text \<open>
  \<^verbatim>\<open>getaddrinfo\<close> returns a code, and on success a list of candidate addresses. The
  text of \<^verbatim>\<open>gai_strerror\<close> for that code is part of the answer. For every candidate the
  record holds what the system calls made on it return: \<^verbatim>\<open>socket\<close> (a descriptor or
  \<open>-1\<close>), \<^verbatim>\<open>setsockopt\<close> (only \<^verbatim>\<open>bind\<close> calls it), \<^verbatim>\<open>::bind\<close> or \<^verbatim>\<open>::connect\<close>, and
  the value of \<^verbatim>\<open>errno\<close> after a failure.
\<close>

record addrinfo =
  socket_ret :: int
  setsockopt_ret :: int
  attach_ret :: int
  ai_errno :: int

record resolver =
  gai_ret :: int
  gai_strerror :: string
  server_info :: "addrinfo list"

text \<open>
  \<^verbatim>\<open>listen\<close> returns once; \<^verbatim>\<open>::accept\<close> is called until it succeeds, its \<open>n\<close>-th call
  returning \<open>accept_rets n\<close>.
\<close>

record listener =
  listen_ret :: int
  listen_errno :: int
  accept_rets :: "nat \<Rightarrow> int"

section \<open>\<^verbatim>\<open>TcpSocket::bind\<close>\<close>

text \<open>
  The candidate loop of \<^verbatim>\<open>bind\<close>. The result \<open>Inr found\<close> tells whether the loop left
  through \<^verbatim>\<open>break\<close> (\<^verbatim>\<open>i != nullptr\<close>). The descriptor is stored in \<^verbatim>\<open>this->sockfd\<close>
  before any check, as in the source.
\<close>

fun bind_loop :: "addrinfo list \<Rightarrow> TcpSocket \<Rightarrow> (failure + bool) \<times> TcpSocket" where
  "bind_loop [] s = (Inr False, s)"
| "bind_loop (i # rest) s =
     (let s1 = s\<lparr>sockfd := Some (socket_ret i)\<rparr> in
      if sockfd s1 = Some (-1) then bind_loop rest s1
      else if setsockopt_ret i = -1 then (Inl (Thrown (SockOptFailed (ai_errno i))), s1)
      else if attach_ret i = -1 then bind_loop rest s1
      else (Inr True, s1))"

definition bind :: "resolver \<Rightarrow> TcpSocket \<Rightarrow> (failure + unit) \<times> TcpSocket" where
  "bind env s =
     (if is_bound s then (Inl (Thrown AlreadyBound), s)
      else if gai_ret env \<noteq> 0
        then (Inl (Thrown (ResolutionFailed (gai_ret env) (gai_strerror env))), s)
      else (case bind_loop (server_info env) s of
              (Inl f, s1) \<Rightarrow> (Inl f, s1)
            | (Inr found, s1) \<Rightarrow>
                if \<not> found then (Inl (Thrown BindFailed), s1\<lparr>sockfd := None\<rparr>)
                else (Inr (), s1)))"

section \<open>\<^verbatim>\<open>TcpSocket::accept\<close>\<close>

text \<open>
  \<^verbatim>\<open>while (true)\<close> around \<^verbatim>\<open>::accept\<close>: the loop leaves only when a call returns something
  other than \<open>-1\<close>, and runs forever when none does.
\<close>

partial_function (option) accept_loop :: "(nat \<Rightarrow> int) \<Rightarrow> nat \<Rightarrow> TcpSocket \<Rightarrow> TcpSocket option" where
  "accept_loop rets n s =
     (let s1 = s\<lparr>remote_sockfd := Some (rets n)\<rparr> in
      if remote_sockfd s1 \<noteq> Some (-1) then Some s1
      else accept_loop rets (Suc n) s1)"

declare accept_loop.simps [code]

definition accept :: "listener \<Rightarrow> TcpSocket \<Rightarrow> ((failure + unit) \<times> TcpSocket) option" where
  "accept env s =
     (if \<not> is_bound s then Some (Inl (Thrown NotBound), s)
      else if is_connected s then Some (Inl (Thrown AlreadyConnected), s)
      else if listen_ret env = -1 then Some (Inl (Thrown (ListenFailed (listen_errno env))), s)
      else map_option (\<lambda>s1. (Inr (), s1)) (accept_loop (accept_rets env) 0 s))"

section \<open>\<^verbatim>\<open>TcpSocket::connect\<close>\<close>

fun connect_loop :: "addrinfo list \<Rightarrow> TcpSocket \<Rightarrow> bool \<times> TcpSocket" where
  "connect_loop [] s = (False, s)"
| "connect_loop (i # rest) s =
     (let s1 = s\<lparr>remote_sockfd := Some (socket_ret i)\<rparr> in
      if remote_sockfd s1 = Some (-1) then connect_loop rest s1
      else if attach_ret i = -1 then connect_loop rest s1
      else (True, s1))"

definition connect :: "resolver \<Rightarrow> TcpSocket \<Rightarrow> (failure + unit) \<times> TcpSocket" where
  "connect env s =
     (if \<not> is_bound s then (Inl (Thrown NotBound), s)
      else if is_connected s then (Inl (Thrown AlreadyConnected), s)
      else if gai_ret env \<noteq> 0
        then (Inl (Thrown (ResolutionFailed (gai_ret env) (gai_strerror env))), s)
      else (case connect_loop (server_info env) s of
              (found, s1) \<Rightarrow>
                if \<not> found then (Inl (Thrown ConnectFailed), s1\<lparr>remote_sockfd := None\<rparr>)
                else (Inr (), s1)))"

section \<open>Vector accesses\<close>

text \<open>
  \<^verbatim>\<open>v[i]\<close> on a \<^verbatim>\<open>std::vector\<close> is defined only for \<^verbatim>\<open>i < v.size()\<close>; \<open>None\<close> is the access
  outside the vector.
\<close>

definition get_at :: "bytes \<Rightarrow> nat \<Rightarrow> byte option" where
  "get_at v i = (if i < length v then Some (v ! i) else None)"

definition put_at :: "bytes \<Rightarrow> nat \<Rightarrow> byte \<Rightarrow> bytes option" where
  "put_at v i x = (if i < length v then Some (v[i := x]) else None)"

definition INT_MAX :: nat where
  "INT_MAX = 2147483647"

section \<open>\<^verbatim>\<open>TcpSocket::send\<close>\<close>

text \<open>
  The connection as \<^verbatim>\<open>send\<close> sees it: \<open>sent\<close> collects the buffers that \<^verbatim>\<open>::send\<close>
  accepted, oldest first; \<open>send_errs\<close> scripts the coming calls of \<^verbatim>\<open>::send\<close>, \<open>Some e\<close> for
  a call that returns \<open>-1\<close> with \<^verbatim>\<open>errno\<close> \<open>e\<close>. Past the end of the script every call
  succeeds.
\<close>

record wire =
  sent :: "bytes list"
  send_errs :: "int option list"

definition sys_send :: "bytes \<Rightarrow> wire \<Rightarrow> int option \<times> wire" where
  "sys_send buf w =
     (case send_errs w of
        [] \<Rightarrow> (None, w\<lparr>sent := sent w @ [buf]\<rparr>)
      | None # rest \<Rightarrow> (None, w\<lparr>sent := sent w @ [buf], send_errs := rest\<rparr>)
      | Some e # rest \<Rightarrow> (Some e, w\<lparr>send_errs := rest\<rparr>))"

text \<open>
  \<^verbatim>\<open>count = std::min((unsigned long)this->packet_len - 1, data_size - offset)\<close>: both
  operands are 64-bit unsigned, the subtraction from a packet length of 0 wraps to
  \<open>2^64 - 1\<close>, and the assignment to the \<^verbatim>\<open>uint8_t\<close> \<^verbatim>\<open>count\<close> keeps the low 8 bits.
\<close>

definition chunk_count :: "byte \<Rightarrow> nat \<Rightarrow> nat \<Rightarrow> byte" where
  "chunk_count pl data_size offset =
     ucast (min ((ucast pl :: 64 word) - 1) (of_nat data_size - of_nat offset))"

text \<open>
  \<^verbatim>\<open>for (i = 1; i <= count; i++) packet[i] = data[i - 1 + offset];\<close> with \<^verbatim>\<open>i\<close> and
  \<^verbatim>\<open>offset\<close> of type \<^verbatim>\<open>int\<close>.
\<close>

function fill :: "nat \<Rightarrow> nat \<Rightarrow> nat \<Rightarrow> bytes \<Rightarrow> bytes \<Rightarrow> failure + bytes" where
  "fill i count offset data packet =
     (if i \<le> count then
        (if i - 1 + offset > INT_MAX then Inl SignedOverflow
         else case get_at data (i - 1 + offset) of
                None \<Rightarrow> Inl OutOfRange
              | Some x \<Rightarrow>
                  (case put_at packet i x of
                     None \<Rightarrow> Inl OutOfRange
                   | Some packet1 \<Rightarrow> fill (i + 1) count offset data packet1))
      else Inr packet)"
  by pat_completeness auto
termination
  by (relation "measure (\<lambda>(i, count, offset, data, packet). count + 1 - i)") auto

declare fill.simps [simp del]

text \<open>
  The chunk loop. \<^verbatim>\<open>packet\<close> is allocated once, before the loop, and every iteration
  writes into the same buffer; \<^verbatim>\<open>::send\<close> is given \<^verbatim>\<open>packet_len\<close> bytes of it. The loop
  runs while \<^verbatim>\<open>offset < data_size\<close> and nothing follows it.
\<close>

partial_function (option) send_loop ::
  "byte \<Rightarrow> bytes \<Rightarrow> nat \<Rightarrow> bytes \<Rightarrow> wire \<Rightarrow> ((failure + unit) \<times> wire) option" where
  "send_loop pl data offset packet w =
     (if offset < length data then
        (let count = chunk_count pl (length data) offset in
         case put_at packet 0 count of
           None \<Rightarrow> Some (Inl OutOfRange, w)
         | Some packet0 \<Rightarrow>
             (case fill 1 (unat count) offset data packet0 of
                Inl f \<Rightarrow> Some (Inl f, w)
              | Inr packet1 \<Rightarrow>
                  (case sys_send (take (unat pl) packet1) w of
                     (Some e, w1) \<Rightarrow> Some (Inl (Thrown (WriteFailed e)), w1)
                   | (None, w1) \<Rightarrow>
                       if offset + unat count > INT_MAX then Some (Inl SignedOverflow, w1)
                       else send_loop pl data (offset + unat count) packet1 w1)))
      else Some (Inr (), w))"

declare send_loop.simps [code]

text \<open>
  \<^verbatim>\<open>send\<close> returns, beside its result, the socket and the caller's buffer as they are
  after the call.
\<close>

definition send ::
  "TcpSocket \<Rightarrow> bytes \<Rightarrow> wire \<Rightarrow> ((failure + unit) \<times> TcpSocket \<times> bytes \<times> wire) option" where
  "send s data w =
     (if \<not> is_bound s then Some (Inl (Thrown NotBound), s, data, w)
      else if \<not> is_connected s then Some (Inl (Thrown NotConnected), s, data, w)
      else map_option (\<lambda>(r, w1). (r, s, data, w1))
             (send_loop (packet_len s) data 0 (replicate (unat (packet_len s)) 0) w))"

section \<open>\<^verbatim>\<open>TcpSocket::recv\<close>\<close>

text \<open>
  What arrives on the connection, in order: a segment of bytes as the transport delivers
  it, an I/O error with its \<^verbatim>\<open>errno\<close>, or the peer's shutdown. One call of \<^verbatim>\<open>::recv\<close>
  for \<open>n\<close> bytes returns at most \<open>n\<close> bytes of the first segment and leaves the rest of it
  for the next call; it returns 0 bytes at a shutdown; it does not return while nothing
  has arrived and the peer keeps the connection open (the empty list).
\<close>

datatype event = Seg bytes | Err int | Eof

fun sys_recv :: "nat \<Rightarrow> event list \<Rightarrow> ((int + bytes) \<times> event list) option" where
  "sys_recv n [] = None"
| "sys_recv n (Err e # rest) = Some (Inl e, rest)"
| "sys_recv n (Eof # rest) = Some (Inr [], Eof # rest)"
| "sys_recv n (Seg bs # rest) =
     Some (Inr (take n bs), if drop n bs = [] then rest else Seg (drop n bs) # rest)"

text \<open>\<^verbatim>\<open>for (i = 1; i <= count; i++) data.push_back(packet[i]);\<close>\<close>

function drain :: "nat \<Rightarrow> nat \<Rightarrow> bytes \<Rightarrow> bytes \<Rightarrow> failure + bytes" where
  "drain i count packet data =
     (if i \<le> count then
        (case get_at packet i of
           None \<Rightarrow> Inl OutOfRange
         | Some x \<Rightarrow> drain (i + 1) count packet (data @ [x]))
      else Inr data)"
  by pat_completeness auto
termination
  by (relation "measure (\<lambda>(i, count, packet, data). count + 1 - i)") auto

declare drain.simps [simp del]

text \<open>
  The packet loop of \<^verbatim>\<open>recv\<close>: one call of \<^verbatim>\<open>::recv\<close> per iteration, into the same
  buffer. \<open>None\<close> is the call of \<^verbatim>\<open>::recv\<close> that never returns.
\<close>

partial_function (option) recv_loop ::
  "byte \<Rightarrow> bytes \<Rightarrow> bytes \<Rightarrow> event list \<Rightarrow> ((failure + bytes) \<times> event list) option" where
  "recv_loop pl data packet es =
     (case sys_recv (unat pl) es of
        None \<Rightarrow> None
      | Some (Inl errno, es1) \<Rightarrow> Some (Inl (Thrown (ReadFailed errno)), es1)
      | Some (Inr got, es1) \<Rightarrow>
          if int (length got) \<noteq> uint pl then Some (Inl (Thrown ShortRead), es1)
          else
            (let packet1 = got @ drop (length got) packet in
             case get_at packet1 0 of
               None \<Rightarrow> Some (Inl OutOfRange, es1)
             | Some count \<Rightarrow>
                 (case drain 1 (unat count) packet1 data of
                    Inl f \<Rightarrow> Some (Inl f, es1)
                  | Inr data1 \<Rightarrow>
                      if uint count < uint pl - 1 then Some (Inr data1, es1)
                      else recv_loop pl data1 packet1 es1)))"

declare recv_loop.simps [code]

text \<open>
  \<^verbatim>\<open>recv\<close> returns its result and what is left to arrive on the connection.
\<close>

definition recv :: "TcpSocket \<Rightarrow> event list \<Rightarrow> ((failure + bytes) \<times> event list) option" where
  "recv s es =
     (if \<not> is_bound s then Some (Inl (Thrown NotBound), es)
      else if \<not> is_connected s then Some (Inl (Thrown NotConnected), es)
      else recv_loop (packet_len s) [] (replicate (unat (packet_len s)) 0) es)"

section \<open>A connected pair\<close>

text \<open>
  The sender's side starts with nothing written and no failing write. On the receiving
  side every buffer that the sender's \<^verbatim>\<open>::send\<close> accepted arrives whole, as one segment,
  in the order it was written, followed by \<open>after\<close>: \<open>[]\<close> when the peer then stays
  silent with the connection open, \<open>[Eof]\<close> when it closes.
\<close>

definition idle_wire :: wire where
  "idle_wire = \<lparr>sent = [], send_errs = []\<rparr>"

definition arrivals :: "wire \<Rightarrow> event list \<Rightarrow> event list" where
  "arrivals w after = map Seg (sent w) @ after"

definition send_then_recv ::
  "TcpSocket \<Rightarrow> TcpSocket \<Rightarrow> bytes \<Rightarrow> event list \<Rightarrow> (failure + bytes) option" where
  "send_then_recv a b m after =
     (case send a m idle_wire of
        None \<Rightarrow> None
      | Some (Inl f, _, _, _) \<Rightarrow> Some (Inl f)
      | Some (Inr _, _, _, w) \<Rightarrow> map_option fst (recv b (arrivals w after)))"

text \<open>A socket that is bound and connected, with the given descriptors.\<close>

definition connected_socket :: "int \<Rightarrow> int \<Rightarrow> byte \<Rightarrow> TcpSocket" where
  "connected_socket fd rfd pl = \<lparr>sockfd = Some fd, remote_sockfd = Some rfd, packet_len = pl\<rparr>"

section \<open>Packets written from one buffer\<close>

text \<open>
  \<open>reuses n packet new\<close>: every packet of \<open>new\<close> has \<open>n\<close> bytes, and beyond its length
  byte and its chunk it holds what the packet before it held at the same place, the
  first one what \<open>packet\<close> held.
\<close>

definition reuses :: "nat \<Rightarrow> bytes \<Rightarrow> bytes list \<Rightarrow> bool" where
  "reuses n packet new \<longleftrightarrow>
     (\<forall>k < length new. length (new ! k) = n \<and>
        (\<forall>j. unat (new ! k ! 0) < j \<and> j < n \<longrightarrow> new ! k ! j = (packet # new) ! k ! j))"

section \<open>Evaluation on concrete inputs\<close>

lemma replicate_numeral_unfold: "replicate (numeral k) x = x # replicate (pred_numeral k) x"
  by (simp add: numeral_eq_Suc)

lemmas eval_simps = send_def recv_def is_bound_def is_connected_def
  send_loop.simps recv_loop.simps chunk_count_def put_at_def get_at_def sys_send_def
  INT_MAX_def replicate_numeral_unfold fill.simps drain.simps idle_wire_def arrivals_def
  send_then_recv_def connected_socket_def TcpSocket_new_def

text \<open>
  The scenario of \<^verbatim>\<open>nix_tcp_test.cpp\<close> in small: with packets of 4 bytes a message of 4
  bytes travels as a full packet and a short one, and \<^verbatim>\<open>recv\<close> returns it.
\<close>

lemma send_two_packets:
  "send (connected_socket 3 4 4) [1, 2, 3, 4] idle_wire =
     Some (Inr (), connected_socket 3 4 4, [1, 2, 3, 4],
           \<lparr>sent = [[3, 1, 2, 3], [1, 4, 2, 3]], send_errs = []\<rparr>)"
  by (simp add: eval_simps)

lemma round_trip_two_packets:
  "send_then_recv (connected_socket 3 4 4) (connected_socket 5 6 4) [1, 2, 3, 4] [] =
     Some (Inr [1, 2, 3, 4])"
  by (simp add: eval_simps)

section \<open>The packet format\<close>

text \<open>
  Claim C1 (round trip), checked at a message whose length is a multiple of the chunk
  capacity. With packets of 4 bytes the capacity is 3. For the message \<open>[1, 2, 3]\<close>
  \<^verbatim>\<open>send\<close> writes the one full packet \<open>[3, 1, 2, 3]\<close> and returns; \<^verbatim>\<open>recv\<close> takes the
  full packet as "more follows" and asks for another one. It never returns while the
  peer keeps the connection open, and throws "invalid received packet length" when the
  peer closes. The empty message fares the same: nothing is written at all. In neither
  case does \<^verbatim>\<open>recv\<close> return the message.
\<close>

theorem round_trip_full_chunk:
  "send_then_recv (connected_socket 3 4 4) (connected_socket 5 6 4) [1, 2, 3] [] = None \<and>
   send_then_recv (connected_socket 3 4 4) (connected_socket 5 6 4) [1, 2, 3] [Eof] =
     Some (Inl (Thrown ShortRead)) \<and>
   send_then_recv (connected_socket 3 4 4) (connected_socket 5 6 4) [] [] = None \<and>
   send_then_recv (connected_socket 3 4 4) (connected_socket 5 6 4) [] [Eof] =
     Some (Inl (Thrown ShortRead))"
  by (simp add: eval_simps)

text \<open>
  Claim C2 (frame count), checked at \<open>k = 6\<close> and \<open>k = 0\<close> with capacity \<open>c = 3\<close>.
  \<^verbatim>\<open>send\<close> writes 2 packets for 6 bytes, both full, and none for the empty message:
  the loop runs while \<^verbatim>\<open>offset < data_size\<close> and no empty final packet follows it. The
  claim counts \<open>ceil(7/3) = 3\<close> packets and 1 packet.
\<close>

theorem frame_count_full_chunk:
  "send (connected_socket 3 4 4) [1, 2, 3, 4, 5, 6] idle_wire =
     Some (Inr (), connected_socket 3 4 4, [1, 2, 3, 4, 5, 6],
           \<lparr>sent = [[3, 1, 2, 3], [3, 4, 5, 6]], send_errs = []\<rparr>) \<and>
   send (connected_socket 3 4 4) [] idle_wire =
     Some (Inr (), connected_socket 3 4 4, [], \<lparr>sent = [], send_errs = []\<rparr>)"
  by (simp add: eval_simps)

text \<open>
  Claim C3 (terminal frame marker), checked at packets of 2 bytes (capacity 1) and the
  message \<open>[9]\<close>: the last packet written, \<open>[1, 9]\<close>, has the length byte 1, which is
  \<open>frame_size - 1\<close> and not below it.
\<close>

theorem terminal_frame_full_chunk:
  "map_option (\<lambda>(r, s, d, w). (r, last (sent w) ! 0)) (send (connected_socket 3 4 2) [9] idle_wire) =
     Some (Inr (), 1) \<and>
   \<not> unat (1 :: byte) < unat (packet_len (connected_socket 3 4 2)) - 1"
  by (simp add: eval_simps)

text \<open>
  Claim C4 (malformed frame rejection), checked at packets of 2 bytes and the received
  packet \<open>[5, 0]\<close>, whose length byte 5 exceeds \<open>frame_size - 1 = 1\<close>. \<^verbatim>\<open>recv\<close> has no
  check of the length byte: its copy loop reads \<^verbatim>\<open>packet[1]\<close> and then \<^verbatim>\<open>packet[2]\<close>,
  outside the vector of 2 bytes. No \<^verbatim>\<open>TcpError\<close> is thrown.
\<close>

theorem recv_length_byte_unchecked:
  "recv (connected_socket 3 4 2) [Seg [5, 0]] = Some (Inl OutOfRange, [])"
  by (simp add: eval_simps)

section \<open>State guards\<close>

text \<open>
  Claim C5, as amended: \<^verbatim>\<open>accept\<close>, \<^verbatim>\<open>connect\<close>, \<^verbatim>\<open>send\<close> and \<^verbatim>\<open>recv\<close> on an unbound
  socket throw "socket unbound" (NotBound); \<^verbatim>\<open>accept\<close> and \<^verbatim>\<open>connect\<close> on a connected
  socket throw "socket already connected"; \<^verbatim>\<open>bind\<close> on a bound socket throws "socket
  already bound"; \<^verbatim>\<open>send\<close> and \<^verbatim>\<open>recv\<close> on a socket that is bound and not connected
  throw "socket disconnected" (NotConnected). Every one of these calls leaves the socket
  as it was.
\<close>

theorem state_guards:
  "(\<not> is_bound s \<longrightarrow>
      accept lenv s = Some (Inl (Thrown NotBound), s) \<and>
      connect renv s = (Inl (Thrown NotBound), s) \<and>
      send s data w = Some (Inl (Thrown NotBound), s, data, w) \<and>
      recv s es = Some (Inl (Thrown NotBound), es)) \<and>
   (is_bound s \<and> is_connected s \<longrightarrow>
      accept lenv s = Some (Inl (Thrown AlreadyConnected), s) \<and>
      connect renv s = (Inl (Thrown AlreadyConnected), s)) \<and>
   (is_bound s \<longrightarrow> bind renv s = (Inl (Thrown AlreadyBound), s)) \<and>
   (is_bound s \<and> \<not> is_connected s \<longrightarrow>
      send s data w = Some (Inl (Thrown NotConnected), s, data, w) \<and>
      recv s es = Some (Inl (Thrown NotConnected), es))"
  by (simp add: accept_def connect_def send_def recv_def bind_def)

text \<open>
  Claim C5, the amended statement at a new socket, at a connected socket, and at a
  socket that is bound only.
\<close>

theorem state_guards_witness:
  "\<not> is_bound (TcpSocket_new 64) \<and>
   send (TcpSocket_new 64) [1, 2] idle_wire =
     Some (Inl (Thrown NotBound), TcpSocket_new 64, [1, 2], idle_wire) \<and>
   is_bound (connected_socket 3 4 64) \<and> is_connected (connected_socket 3 4 64) \<and>
   connect \<lparr>gai_ret = 0, gai_strerror = [], server_info = []\<rparr> (connected_socket 3 4 64) =
     (Inl (Thrown AlreadyConnected), connected_socket 3 4 64) \<and>
   bind \<lparr>gai_ret = 0, gai_strerror = [], server_info = []\<rparr> (connected_socket 3 4 64) =
     (Inl (Thrown AlreadyBound), connected_socket 3 4 64) \<and>
   is_bound ((TcpSocket_new 64)\<lparr>sockfd := Some 3\<rparr>) \<and>
   \<not> is_connected ((TcpSocket_new 64)\<lparr>sockfd := Some 3\<rparr>) \<and>
   recv ((TcpSocket_new 64)\<lparr>sockfd := Some 3\<rparr>) [] = Some (Inl (Thrown NotConnected), [])"
  using state_guards [of "TcpSocket_new 64" _ _ "[1, 2]" idle_wire]
    state_guards [of "connected_socket 3 4 64" _ "\<lparr>gai_ret = 0, gai_strerror = [], server_info = []\<rparr>"]
    state_guards [of "(TcpSocket_new 64)\<lparr>sockfd := Some 3\<rparr>" _ _ _ _ "[]"]
  by (simp add: is_bound_def is_connected_def TcpSocket_new_def connected_socket_def)

text \<open>
  Claim C5 as stated fails: \<^verbatim>\<open>send\<close> and \<^verbatim>\<open>recv\<close> on a socket that was never bound check
  \<^verbatim>\<open>is_bound\<close> first and throw "socket unbound", the error of \<^verbatim>\<open>accept\<close> and \<^verbatim>\<open>connect\<close>
  before \<^verbatim>\<open>bind\<close>, not "socket disconnected".
\<close>

theorem send_unbound_counterexample:
  "send (TcpSocket_new 64) [1, 2] idle_wire =
     Some (Inl (Thrown NotBound), TcpSocket_new 64, [1, 2], idle_wire) \<and>
   recv (TcpSocket_new 64) [Seg [0]] = Some (Inl (Thrown NotBound), [Seg [0]]) \<and>
   Thrown NotBound \<noteq> Thrown NotConnected"
  by (simp add: send_def recv_def is_bound_def TcpSocket_new_def NotBound_def NotConnected_def)

section \<open>The socket after a failed call\<close>

lemma bind_loop_sockopt:
  "bind_loop ais s = (Inl f, s1) \<Longrightarrow> \<exists>e. f = Thrown (SockOptFailed e)"
  by (induction ais arbitrary: s) (auto simp: Let_def split: if_splits)

lemma connect_loop_frame:
  "connect_loop ais s = (found, s1) \<Longrightarrow> s1\<lparr>remote_sockfd := None\<rparr> = s\<lparr>remote_sockfd := None\<rparr>"
proof (induction ais arbitrary: s)
  case Nil
  then show ?case by simp
next
  case (Cons i rest)
  then show ?case
    by (fastforce simp: Let_def split: if_splits)
qed

lemma connect_loop_found:
  "connect_loop ais s = (True, s1) \<Longrightarrow> remote_sockfd s1 \<noteq> None"
  by (induction ais arbitrary: s) (auto simp: Let_def split: if_splits)

lemma accept_loop_connected:
  "accept_loop rets n s = Some s1 \<Longrightarrow> remote_sockfd s1 \<noteq> None \<and> remote_sockfd s1 \<noteq> Some (-1)"
  by (rule accept_loop.raw_induct [rotated]) (auto simp: Let_def split: if_splits)

text \<open>
  Claim C6, as amended: a \<^verbatim>\<open>bind\<close> on an unbound socket that fails because the
  resolution fails, or because no candidate address could be bound, leaves the socket
  unbound; a \<^verbatim>\<open>connect\<close> or \<^verbatim>\<open>accept\<close> that fails leaves the socket exactly as it was
  before the call (bound and not connected, if it was so).
\<close>

theorem failed_call_state:
  "(bind env s = (Inl f, s1) \<and> \<not> is_bound s \<and> (gai_ret env \<noteq> 0 \<or> f = Thrown BindFailed)
      \<longrightarrow> \<not> is_bound s1) \<and>
   (connect env s = (Inl f, s1) \<longrightarrow> s1 = s) \<and>
   (accept lenv s = Some (Inl f, s1) \<longrightarrow> s1 = s)"
proof (intro conjI impI)
  assume a: "bind env s = (Inl f, s1) \<and> \<not> is_bound s \<and> (gai_ret env \<noteq> 0 \<or> f = Thrown BindFailed)"
  show "\<not> is_bound s1"
  proof (cases "gai_ret env \<noteq> 0")
    case True
    with a show ?thesis by (auto simp: bind_def split: if_splits)
  next
    case False
    with a have f: "f = Thrown BindFailed" by simp
    obtain r s2 where l: "bind_loop (server_info env) s = (r, s2)"
      by (cases "bind_loop (server_info env) s")
    show ?thesis
    proof (cases r)
      case (Inl g)
      with l obtain e where "g = Thrown (SockOptFailed e)"
        using bind_loop_sockopt by blast
      with a False l Inl f show ?thesis
        by (auto simp: bind_def SockOptFailed_def BindFailed_def split: if_splits)
    next
      case (Inr found)
      with a False l show ?thesis
        by (auto simp: bind_def is_bound_def split: if_splits)
    qed
  qed
next
  assume a: "connect env s = (Inl f, s1)"
  obtain found s2 where l: "connect_loop (server_info env) s = (found, s2)"
    by (cases "connect_loop (server_info env) s")
  show "s1 = s"
  proof (cases "\<not> is_bound s \<or> is_connected s \<or> gai_ret env \<noteq> 0")
    case True
    with a show ?thesis
      by (auto simp: connect_def split: if_splits)
  next
    case False
    then have "remote_sockfd s = None"
      by (simp add: is_connected_def)
    then have "s\<lparr>remote_sockfd := None\<rparr> = s"
      by (cases s) simp
    moreover from a l False have "s1 = s2\<lparr>remote_sockfd := None\<rparr>"
      by (auto simp: connect_def split: if_splits)
    ultimately show ?thesis
      using connect_loop_frame [OF l] by simp
  qed
next
  assume a: "accept lenv s = Some (Inl f, s1)"
  then show "s1 = s"
    by (auto simp: accept_def split: if_splits)
qed

text \<open>
  Claim C6, the amended statement at a failing resolution, at two candidates that both
  fail, at a refused connection and at a failing \<^verbatim>\<open>listen\<close>.
\<close>

theorem failed_call_state_witness:
  "bind \<lparr>gai_ret = - 2, gai_strerror = ''Name or service not known'', server_info = []\<rparr>
     (TcpSocket_new 64) =
     (Inl (Thrown (ResolutionFailed (- 2) ''Name or service not known'')), TcpSocket_new 64) \<and>
   \<not> is_bound (TcpSocket_new 64) \<and>
   bind \<lparr>gai_ret = 0, gai_strerror = [], server_info =
       [\<lparr>socket_ret = - 1, setsockopt_ret = 0, attach_ret = 0, ai_errno = 24\<rparr>,
        \<lparr>socket_ret = 5, setsockopt_ret = 0, attach_ret = - 1, ai_errno = 98\<rparr>]\<rparr>
     (TcpSocket_new 64) = (Inl (Thrown BindFailed), TcpSocket_new 64) \<and>
   connect \<lparr>gai_ret = 0, gai_strerror = [], server_info =
       [\<lparr>socket_ret = 6, setsockopt_ret = 0, attach_ret = - 1, ai_errno = 111\<rparr>]\<rparr>
     ((TcpSocket_new 64)\<lparr>sockfd := Some 3\<rparr>) =
     (Inl (Thrown ConnectFailed), (TcpSocket_new 64)\<lparr>sockfd := Some 3\<rparr>) \<and>
   accept \<lparr>listen_ret = - 1, listen_errno = 98, accept_rets = (\<lambda>n. 7)\<rparr>
     ((TcpSocket_new 64)\<lparr>sockfd := Some 3\<rparr>) =
     Some (Inl (Thrown (ListenFailed 98)), (TcpSocket_new 64)\<lparr>sockfd := Some 3\<rparr>)"
  using failed_call_state
    [of "\<lparr>gai_ret = - 2, gai_strerror = ''Name or service not known'', server_info = []\<rparr>"
        "TcpSocket_new 64" "Thrown (ResolutionFailed (- 2) ''Name or service not known'')"
        "TcpSocket_new 64"]
    failed_call_state
    [of "\<lparr>gai_ret = 0, gai_strerror = [], server_info =
       [\<lparr>socket_ret = - 1, setsockopt_ret = 0, attach_ret = 0, ai_errno = 24\<rparr>,
        \<lparr>socket_ret = 5, setsockopt_ret = 0, attach_ret = - 1, ai_errno = 98\<rparr>]\<rparr>"
        "TcpSocket_new 64" "Thrown BindFailed" "TcpSocket_new 64"]
    failed_call_state
    [of "\<lparr>gai_ret = 0, gai_strerror = [], server_info =
       [\<lparr>socket_ret = 6, setsockopt_ret = 0, attach_ret = - 1, ai_errno = 111\<rparr>]\<rparr>"
        "(TcpSocket_new 64)\<lparr>sockfd := Some 3\<rparr>" "Thrown ConnectFailed"
        "(TcpSocket_new 64)\<lparr>sockfd := Some 3\<rparr>"
        "\<lparr>listen_ret = - 1, listen_errno = 98, accept_rets = (\<lambda>n. 7)\<rparr>"]
  by (simp add: bind_def connect_def accept_def is_bound_def is_connected_def TcpSocket_new_def)

text \<open>
  Claim C6 as stated fails. A \<^verbatim>\<open>bind\<close> whose \<^verbatim>\<open>setsockopt\<close> fails throws with the new
  descriptor still in \<^verbatim>\<open>sockfd\<close>, so \<^verbatim>\<open>is_bound()\<close> holds afterwards. A \<^verbatim>\<open>connect\<close> on
  an unbound socket fails and leaves it unbound, not bound; an \<^verbatim>\<open>accept\<close> on a connected
  socket fails and leaves it connected.
\<close>

theorem failed_call_counterexample:
  "bind \<lparr>gai_ret = 0, gai_strerror = [], server_info =
       [\<lparr>socket_ret = 5, setsockopt_ret = - 1, attach_ret = 0, ai_errno = 22\<rparr>]\<rparr>
     (TcpSocket_new 64) =
     (Inl (Thrown (SockOptFailed 22)), (TcpSocket_new 64)\<lparr>sockfd := Some 5\<rparr>) \<and>
   is_bound ((TcpSocket_new 64)\<lparr>sockfd := Some 5\<rparr>) \<and>
   connect \<lparr>gai_ret = 0, gai_strerror = [], server_info = []\<rparr> (TcpSocket_new 64) =
     (Inl (Thrown NotBound), TcpSocket_new 64) \<and>
   \<not> is_bound (TcpSocket_new 64) \<and>
   accept \<lparr>listen_ret = 0, listen_errno = 0, accept_rets = (\<lambda>n. 7)\<rparr>
     (connected_socket 3 4 64) =
     Some (Inl (Thrown AlreadyConnected), connected_socket 3 4 64) \<and>
   is_connected (connected_socket 3 4 64)"
  by (simp add: bind_def connect_def accept_def is_bound_def is_connected_def TcpSocket_new_def
      connected_socket_def)

section \<open>What \<^verbatim>\<open>send\<close> leaves unchanged\<close>

text \<open>
  Claim C9: after a call of \<^verbatim>\<open>send\<close> that returns or throws, the local descriptor, the
  remote descriptor and the packet length of the socket are what they were before the
  call, and so is the caller's buffer.
\<close>

theorem send_frame_effect:
  "send s data w = Some (r, s1, data1, w1) \<and> (r = Inr () \<or> (\<exists>e. r = Inl (Thrown e))) \<longrightarrow>
     sockfd s1 = sockfd s \<and> remote_sockfd s1 = remote_sockfd s \<and>
     packet_len s1 = packet_len s \<and> data1 = data"
  by (auto simp: send_def split: if_splits)

text \<open>Claim C9 at a call that returns and at a call whose second write fails.\<close>

theorem send_frame_effect_witness:
  "send (connected_socket 3 4 4) [1, 2, 3, 4] idle_wire =
     Some (Inr (), connected_socket 3 4 4, [1, 2, 3, 4],
           \<lparr>sent = [[3, 1, 2, 3], [1, 4, 2, 3]], send_errs = []\<rparr>) \<and>
   send (connected_socket 3 4 4) [1, 2, 3, 4] \<lparr>sent = [], send_errs = [None, Some 32]\<rparr> =
     Some (Inl (Thrown (WriteFailed 32)), connected_socket 3 4 4, [1, 2, 3, 4],
           \<lparr>sent = [[3, 1, 2, 3]], send_errs = []\<rparr>) \<and>
   sockfd (connected_socket 3 4 4) = Some 3 \<and>
   remote_sockfd (connected_socket 3 4 4) = Some 4 \<and>
   packet_len (connected_socket 3 4 4) = 4"
  using send_frame_effect [of "connected_socket 3 4 4" "[1, 2, 3, 4]" idle_wire "Inr ()"
      "connected_socket 3 4 4" "[1, 2, 3, 4]"
      "\<lparr>sent = [[3, 1, 2, 3], [1, 4, 2, 3]], send_errs = []\<rparr>"]
    send_frame_effect [of "connected_socket 3 4 4" "[1, 2, 3, 4]"
      "\<lparr>sent = [], send_errs = [None, Some 32]\<rparr>" "Inl (Thrown (WriteFailed 32))"
      "connected_socket 3 4 4" "[1, 2, 3, 4]" "\<lparr>sent = [[3, 1, 2, 3]], send_errs = []\<rparr>"]
  by (simp add: eval_simps)

section \<open>The loops of \<^verbatim>\<open>send\<close>\<close>

lemma unat_chunk_count:
  assumes "pl \<noteq> 0" and "offset < n" and "n < 2 ^ 64"
  shows "unat (chunk_count pl n offset) = min (unat pl - 1) (n - offset)"
proof -
  let ?a = "(ucast pl :: 64 word) - 1"
  let ?b = "(of_nat n - of_nat offset :: 64 word)"
  have pl: "unat pl < 256" using unsigned_less [of pl, where ?'a = nat] by simp
  have pos: "0 < unat pl" using assms(1) by (simp add: unat_gt_0)
  have u: "unat (ucast pl :: 64 word) = unat pl"
    using pl by (simp add: unsigned_ucast_eq take_bit_nat_eq_self)
  then have "(ucast pl :: 64 word) \<noteq> 0"
    using pos by (metis unat_0 less_numeral_extra(3))
  then have a: "unat ?a = unat pl - 1"
    using u by (simp add: unat_minus_one)
  have eq: "?b = of_nat (n - offset)"
    using assms(2) by (simp add: of_nat_diff)
  have "unat (of_nat (n - offset) :: 64 word) = n - offset"
    using assms(2,3) by (subst unat_of_nat) simp
  then have b: "unat ?b = n - offset"
    by (simp only: eq)
  have m: "unat (min ?a ?b) = min (unat pl - 1) (n - offset)"
    using a b by (simp add: min_def word_le_nat_alt)
  have "unat (ucast (min ?a ?b) :: 8 word) = unat (min ?a ?b) mod 256"
    by (simp add: unsigned_ucast_eq take_bit_eq_mod)
  with m pl pos show ?thesis
    by (simp add: chunk_count_def)
qed

lemma chunk_count_one: "chunk_count 1 n offset = 0"
  by (simp add: chunk_count_def)

lemma fill_frame:
  "fill i count offset data p = Inr p1 \<Longrightarrow>
     length p1 = length p \<and> (\<forall>j. j < i \<or> count < j \<longrightarrow> p1 ! j = p ! j)"
proof (induction i count offset data p rule: fill.induct)
  case (1 i count offset data packet)
  show ?case
  proof (cases "i \<le> count")
    case False
    with "1.prems" show ?thesis by (simp add: fill.simps)
  next
    case True
    with "1.prems" obtain x p0 where
      g: "\<not> INT_MAX < i - 1 + offset" "get_at data (i - 1 + offset) = Some x"
        "put_at packet i x = Some p0" "fill (i + 1) count offset data p0 = Inr p1"
      by (subst (asm) fill.simps) (auto split: if_splits option.splits)
    from "1.IH" [OF True g(1) g(2) g(3) g(4)]
    have ih: "length p1 = length p0" "\<forall>j. j < i + 1 \<or> count < j \<longrightarrow> p1 ! j = p0 ! j"
      by simp_all
    from g(3) have p0: "p0 = packet[i := x]" "i < length packet"
      by (auto simp: put_at_def split: if_splits)
    from ih p0 True show ?thesis by auto
  qed
qed

lemma fill_ok:
  "count < length p \<Longrightarrow> offset + count \<le> length data \<Longrightarrow> length data \<le> INT_MAX \<Longrightarrow> 1 \<le> i \<Longrightarrow>
     \<exists>p1. fill i count offset data p = Inr p1"
proof (induction i count offset data p rule: fill.induct)
  case (1 i count offset data packet)
  show ?case
  proof (cases "i \<le> count")
    case False
    then show ?thesis by (simp add: fill.simps)
  next
    case True
    with "1.prems" have a: "\<not> INT_MAX < i - 1 + offset" "i - 1 + offset < length data" "i < length packet"
      by auto
    then have g: "get_at data (i - 1 + offset) = Some (data ! (i - 1 + offset))"
      "put_at packet i (data ! (i - 1 + offset)) = Some (packet[i := data ! (i - 1 + offset)])"
      by (simp_all add: get_at_def put_at_def)
    from "1.IH" [OF True a(1) g(1) g(2)] "1.prems"
    obtain p1 where "fill (i + 1) count offset data (packet[i := data ! (i - 1 + offset)]) = Inr p1"
      by auto
    with True a g show ?thesis
      by (subst fill.simps) simp
  qed
qed

lemma sys_send_cases:
  "sys_send buf w = (r, w1) \<Longrightarrow>
     (r = None \<and> sent w1 = sent w @ [buf]) \<or> (r \<noteq> None \<and> sent w1 = sent w)"
  by (auto simp: sys_send_def split: list.splits option.splits)

lemma sys_send_succeeds:
  "\<forall>x\<in>set (send_errs w). x = None \<Longrightarrow>
     \<exists>w1. sys_send buf w = (None, w1) \<and> (\<forall>x\<in>set (send_errs w1). x = None)"
  by (cases "send_errs w") (auto simp: sys_send_def)

lemma chunk_progress:
  assumes "2 \<le> unat pl" and "offset < n" and "n \<le> INT_MAX"
  shows "0 < unat (chunk_count pl n offset)"
    and "unat (chunk_count pl n offset) < unat pl"
    and "offset + unat (chunk_count pl n offset) \<le> n"
proof -
  from assms(1) have "pl \<noteq> 0" by auto
  moreover from assms(3) have "n < 2 ^ 64" by (simp add: INT_MAX_def)
  ultimately have u: "unat (chunk_count pl n offset) = min (unat pl - 1) (n - offset)"
    using assms(2) by (simp add: unat_chunk_count)
  from u assms show "0 < unat (chunk_count pl n offset)" by simp
  from u assms show "unat (chunk_count pl n offset) < unat pl" by simp
  from u assms show "offset + unat (chunk_count pl n offset) \<le> n" by simp
qed

text \<open>One iteration of the chunk loop, when it gets as far as \<^verbatim>\<open>::send\<close>.\<close>

lemma send_step_packet:
  assumes len: "length packet = unat pl"
    and put: "put_at packet 0 count = Some packet0"
    and fill: "fill 1 (unat count) offset data packet0 = Inr packet1"
  shows "take (unat pl) packet1 = packet1" and "length packet1 = unat pl"
    and "packet1 ! 0 = count"
    and "\<forall>j. unat count < j \<longrightarrow> packet1 ! j = packet ! j"
proof -
  from put have p0: "packet0 = packet[0 := count]" "0 < length packet"
    by (auto simp: put_at_def split: if_splits)
  from fill_frame [OF fill]
  have f: "length packet1 = length packet0" "\<forall>j. j < 1 \<or> unat count < j \<longrightarrow> packet1 ! j = packet0 ! j"
    by simp_all
  from f p0 len show "length packet1 = unat pl" by simp
  then show "take (unat pl) packet1 = packet1" by simp
  from f p0 show "packet1 ! 0 = count" by simp
  show "\<forall>j. unat count < j \<longrightarrow> packet1 ! j = packet ! j"
  proof (intro allI impI)
    fix j assume "unat count < j"
    then have "packet1 ! j = packet0 ! j" "j \<noteq> 0" using f by auto
    then show "packet1 ! j = packet ! j" using p0 by simp
  qed
qed

lemma reuses_Nil: "reuses n packet []"
  by (simp add: reuses_def)

lemma reuses_Cons:
  assumes "length f = n" and "\<forall>j. unat (f ! 0) < j \<and> j < n \<longrightarrow> f ! j = packet ! j"
    and "reuses n f new"
  shows "reuses n packet (f # new)"
  unfolding reuses_def
proof (intro allI impI)
  fix k assume k: "k < length (f # new)"
  show "length ((f # new) ! k) = n \<and>
        (\<forall>j. unat ((f # new) ! k ! 0) < j \<and> j < n \<longrightarrow> (f # new) ! k ! j = (packet # f # new) ! k ! j)"
  proof (cases k)
    case 0
    with assms(1,2) show ?thesis by simp
  next
    case (Suc m)
    with k assms(3) show ?thesis by (simp add: reuses_def)
  qed
qed

lemma send_loop_reuses:
  assumes "send_loop pl data offset packet w = Some res"
  shows "length packet = unat pl \<longrightarrow>
           (\<exists>new. sent (snd res) = sent w @ new \<and> reuses (unat pl) packet new)"
  using assms
proof (rule send_loop.raw_induct
    [where P = "\<lambda>pl data offset packet w res. length packet = unat pl \<longrightarrow>
           (\<exists>new. sent (snd res) = sent w @ new \<and> reuses (unat pl) packet new)", rotated])
  fix loop :: "byte \<Rightarrow> bytes \<Rightarrow> nat \<Rightarrow> bytes \<Rightarrow> wire \<Rightarrow> ((failure + unit) \<times> wire) option"
    and pl data offset packet w res
  assume ih: "\<And>pl data offset packet w res. loop pl data offset packet w = Some res \<Longrightarrow>
      length packet = unat pl \<longrightarrow>
           (\<exists>new. sent (snd res) = sent w @ new \<and> reuses (unat pl) packet new)"
  assume body: "(if offset < length data then
        (let count = chunk_count pl (length data) offset in
         case put_at packet 0 count of
           None \<Rightarrow> Some (Inl OutOfRange, w)
         | Some packet0 \<Rightarrow>
             (case fill 1 (unat count) offset data packet0 of
                Inl f \<Rightarrow> Some (Inl f, w)
              | Inr packet1 \<Rightarrow>
                  (case sys_send (take (unat pl) packet1) w of
                     (Some e, w1) \<Rightarrow> Some (Inl (Thrown (WriteFailed e)), w1)
                   | (None, w1) \<Rightarrow>
                       if offset + unat count > INT_MAX then Some (Inl SignedOverflow, w1)
                       else loop pl data (offset + unat count) packet1 w1)))
      else Some (Inr (), w)) = Some res"
  show "length packet = unat pl \<longrightarrow>
           (\<exists>new. sent (snd res) = sent w @ new \<and> reuses (unat pl) packet new)"
  proof
    assume len: "length packet = unat pl"
    define count where "count = chunk_count pl (length data) offset"
    show "\<exists>new. sent (snd res) = sent w @ new \<and> reuses (unat pl) packet new"
    proof (cases "offset < length data")
      case False
      with body have "snd res = w" by auto
      then show ?thesis using reuses_Nil by auto
    next
      case more: True
      show ?thesis
      proof (cases "put_at packet 0 count")
        case None
        with body more have "snd res = w" by (auto simp: count_def)
        then show ?thesis using reuses_Nil by auto
      next
        case (Some packet0)
        show ?thesis
        proof (cases "fill 1 (unat count) offset data packet0")
          case (Inl f)
          with body more Some have "snd res = w" by (auto simp: count_def)
          then show ?thesis using reuses_Nil by auto
        next
          case (Inr packet1)
          note st = send_step_packet [OF len Some Inr]
          obtain r w1 where ss: "sys_send packet1 w = (r, w1)"
            by (cases "sys_send packet1 w")
          show ?thesis
          proof (cases r)
            case (Some e)
            with body more \<open>put_at packet 0 count = Some packet0\<close> Inr ss st(1)
            have "snd res = w1" by (auto simp: count_def)
            moreover from sys_send_cases [OF ss] Some have "sent w1 = sent w" by simp
            ultimately show ?thesis using reuses_Nil by auto
          next
            case None
            with sys_send_cases [OF ss] have w1: "sent w1 = sent w @ [packet1]" by simp
            have one: "\<forall>j. unat (packet1 ! 0) < j \<and> j < unat pl \<longrightarrow> packet1 ! j = packet ! j"
              using st(3,4) by simp
            show ?thesis
            proof (cases "offset + unat count > INT_MAX")
              case True
              with body more \<open>put_at packet 0 count = Some packet0\<close> Inr ss st(1) None
              have "snd res = w1" by (auto simp: count_def)
              moreover have "reuses (unat pl) packet [packet1]"
                using reuses_Cons [OF st(2) one reuses_Nil] .
              ultimately show ?thesis using w1 by auto
            next
              case False
              with body more \<open>put_at packet 0 count = Some packet0\<close> Inr ss st(1) None
              have "loop pl data (offset + unat count) packet1 w1 = Some res"
                by (auto simp: count_def)
              from ih [OF this] st(2) obtain new where
                n: "sent (snd res) = sent w1 @ new" "reuses (unat pl) packet1 new"
                by auto
              have "reuses (unat pl) packet (packet1 # new)"
                using reuses_Cons [OF st(2) one n(2)] .
              with n(1) w1 show ?thesis by auto
            qed
          qed
        qed
      qed
    qed
  qed
qed

section \<open>Padding\<close>

text \<open>
  Claim C7, as amended: in the first packet that a call of \<^verbatim>\<open>send\<close> writes, the padding
  bytes at the offsets \<open>L+1..frame_size-1\<close> are zero; in every later packet each padding
  byte is the byte that the packet before it has at the same offset. \<open>frames\<close> are the
  packets the call has written, \<open>frames ! n ! 0\<close> is the length byte \<open>L\<close> of the \<open>n\<close>-th.
\<close>

theorem padding_bytes:
  "send s data w = Some (r, s1, data1, w1) \<and> sent w1 = sent w @ frames \<and>
   n < length frames \<and> unat (frames ! n ! 0) < j \<and> j < unat (packet_len s) \<longrightarrow>
     frames ! n ! j = (if n = 0 then 0 else frames ! (n - 1) ! j)"
proof
  assume a: "send s data w = Some (r, s1, data1, w1) \<and> sent w1 = sent w @ frames \<and>
   n < length frames \<and> unat (frames ! n ! 0) < j \<and> j < unat (packet_len s)"
  then have n: "n < length frames" and j: "unat (frames ! n ! 0) < j" "j < unat (packet_len s)"
    and fr: "sent w1 = sent w @ frames"
    by simp_all
  from n fr have "sent w1 \<noteq> sent w" by auto
  with a have l: "send_loop (packet_len s) data 0 (replicate (unat (packet_len s)) 0) w = Some (r, w1)"
    by (auto simp: send_def split: if_splits)
  from send_loop_reuses [OF l] fr
  have "reuses (unat (packet_len s)) (replicate (unat (packet_len s)) 0) frames"
    by auto
  with n j have "frames ! n ! j = (replicate (unat (packet_len s)) 0 # frames) ! n ! j"
    by (simp add: reuses_def)
  with j show "frames ! n ! j = (if n = 0 then 0 else frames ! (n - 1) ! j)"
    by (cases n) simp_all
qed

text \<open>
  Claim C7, the amended statement at the second packet of a message of 4 bytes and at
  the only packet of a message of 1 byte, with packets of 4 bytes.
\<close>

theorem padding_bytes_witness:
  "send (connected_socket 3 4 4) [1, 2, 3, 4] idle_wire =
     Some (Inr (), connected_socket 3 4 4, [1, 2, 3, 4],
           \<lparr>sent = [[3, 1, 2, 3], [1, 4, 2, 3]], send_errs = []\<rparr>) \<and>
   unat (([[3, 1, 2, 3], [1, 4, 2, 3]] :: bytes list) ! 1 ! 0) < 2 \<and>
   ([[3, 1, 2, 3], [1, 4, 2, 3]] :: bytes list) ! 1 ! 2 = [[3, 1, 2, 3], [1, 4, 2, 3]] ! 0 ! 2 \<and>
   send (connected_socket 3 4 4) [7] idle_wire =
     Some (Inr (), connected_socket 3 4 4, [7], \<lparr>sent = [[1, 7, 0, 0]], send_errs = []\<rparr>) \<and>
   unat (([[1, 7, 0, 0]] :: bytes list) ! 0 ! 0) < 3 \<and>
   ([[1, 7, 0, 0]] :: bytes list) ! 0 ! 3 = 0"
  using padding_bytes [of "connected_socket 3 4 4" "[1, 2, 3, 4]" idle_wire "Inr ()"
      "connected_socket 3 4 4" "[1, 2, 3, 4]"
      "\<lparr>sent = [[3, 1, 2, 3], [1, 4, 2, 3]], send_errs = []\<rparr>"
      "[[3, 1, 2, 3], [1, 4, 2, 3]]" 1 2]
    padding_bytes [of "connected_socket 3 4 4" "[7]" idle_wire "Inr ()"
      "connected_socket 3 4 4" "[7]" "\<lparr>sent = [[1, 7, 0, 0]], send_errs = []\<rparr>"
      "[[1, 7, 0, 0]]" 0 3]
  by (simp add: eval_simps)

text \<open>
  Claim C7 as stated fails: \<^verbatim>\<open>packet\<close> is zeroed once, before the loop. With packets of 4
  bytes and the message \<open>[1, 2, 3, 4]\<close> the second packet written is \<open>[1, 4, 2, 3]\<close>: its
  length byte is 1, and its padding at the offsets 2 and 3 still holds the bytes 2 and 3
  of the first chunk.
\<close>

theorem padding_counterexample:
  "map_option (\<lambda>(r, s, d, w). sent w ! 1) (send (connected_socket 3 4 4) [1, 2, 3, 4] idle_wire) =
     Some [1, 4, 2, 3] \<and>
   ([1, 4, 2, 3] :: bytes) ! 2 \<noteq> 0 \<and> ([1, 4, 2, 3] :: bytes) ! 3 \<noteq> 0"
  by (simp add: eval_simps)

section \<open>Termination of \<^verbatim>\<open>send\<close>\<close>

lemma send_loop_returns:
  assumes "2 \<le> unat pl" and "length data \<le> INT_MAX" and "length packet = unat pl"
  shows "\<exists>r w1. send_loop pl data offset packet w = Some (r, w1) \<and>
           (r = Inr () \<or> (\<exists>e. r = Inl (Thrown (WriteFailed e))))"
  using assms(3)
proof (induction "length data - offset" arbitrary: offset packet w rule: less_induct)
  case less
  show ?case
  proof (cases "offset < length data")
    case False
    then show ?thesis by (subst send_loop.simps) simp
  next
    case True
    define count where "count = chunk_count pl (length data) offset"
    note cp = chunk_progress [OF assms(1) True assms(2), folded count_def]
    from less.prems assms(1) have put: "put_at packet 0 count = Some (packet[0 := count])"
      by (simp add: put_at_def)
    have "unat count < length (packet[0 := count])"
      using cp(2) less.prems by simp
    from fill_ok [OF this cp(3) assms(2), of 1]
    obtain packet1 where fl: "fill 1 (unat count) offset data (packet[0 := count]) = Inr packet1"
      by auto
    from fill_frame [OF fl] less.prems have len1: "length packet1 = unat pl"
      by simp
    obtain r w1 where ss: "sys_send (take (unat pl) packet1) w = (r, w1)"
      by (cases "sys_send (take (unat pl) packet1) w")
    show ?thesis
    proof (cases r)
      case (Some e)
      with True put fl ss show ?thesis
        by (subst send_loop.simps) (auto simp: count_def [symmetric])
    next
      case None
      from cp(3) assms(2) have no: "\<not> offset + unat count > INT_MAX" by simp
      from cp(1) True have "length data - (offset + unat count) < length data - offset"
        by simp
      from less.hyps [OF this len1]
      obtain r2 w2 where "send_loop pl data (offset + unat count) packet1 w1 = Some (r2, w2)"
        "r2 = Inr () \<or> (\<exists>e. r2 = Inl (Thrown (WriteFailed e)))"
        by blast
      with True put fl ss None no show ?thesis
        by (subst send_loop.simps) (simp add: count_def [symmetric])
    qed
  qed
qed

lemma send_loop_diverges:
  assumes "send_loop pl data offset packet w = Some res"
  shows "\<not> (pl = 1 \<and> offset < length data \<and> offset \<le> INT_MAX \<and> length packet = 1 \<and>
            (\<forall>x\<in>set (send_errs w). x = None))"
  using assms
proof (rule send_loop.raw_induct
    [where P = "\<lambda>pl data offset packet w res.
       \<not> (pl = 1 \<and> offset < length data \<and> offset \<le> INT_MAX \<and> length packet = 1 \<and>
            (\<forall>x\<in>set (send_errs w). x = None))", rotated])
  fix loop :: "byte \<Rightarrow> bytes \<Rightarrow> nat \<Rightarrow> bytes \<Rightarrow> wire \<Rightarrow> ((failure + unit) \<times> wire) option"
    and pl data offset packet w res
  assume ih: "\<And>pl data offset packet w res. loop pl data offset packet w = Some res \<Longrightarrow>
       \<not> (pl = 1 \<and> offset < length data \<and> offset \<le> INT_MAX \<and> length packet = 1 \<and>
            (\<forall>x\<in>set (send_errs w). x = None))"
  assume body: "(if offset < length data then
        (let count = chunk_count pl (length data) offset in
         case put_at packet 0 count of
           None \<Rightarrow> Some (Inl OutOfRange, w)
         | Some packet0 \<Rightarrow>
             (case fill 1 (unat count) offset data packet0 of
                Inl f \<Rightarrow> Some (Inl f, w)
              | Inr packet1 \<Rightarrow>
                  (case sys_send (take (unat pl) packet1) w of
                     (Some e, w1) \<Rightarrow> Some (Inl (Thrown (WriteFailed e)), w1)
                   | (None, w1) \<Rightarrow>
                       if offset + unat count > INT_MAX then Some (Inl SignedOverflow, w1)
                       else loop pl data (offset + unat count) packet1 w1)))
      else Some (Inr (), w)) = Some res"
  show "\<not> (pl = 1 \<and> offset < length data \<and> offset \<le> INT_MAX \<and> length packet = 1 \<and>
            (\<forall>x\<in>set (send_errs w). x = None))"
  proof
    assume c: "pl = 1 \<and> offset < length data \<and> offset \<le> INT_MAX \<and> length packet = 1 \<and>
            (\<forall>x\<in>set (send_errs w). x = None)"
    then have count: "chunk_count pl (length data) offset = 0"
      by (simp add: chunk_count_one)
    from c have put: "put_at packet 0 0 = Some (packet[0 := 0])"
      by (simp add: put_at_def)
    have fl: "fill 1 0 offset data (packet[0 := 0]) = Inr (packet[0 := 0])"
      by (subst fill.simps) simp
    from c sys_send_succeeds obtain w1 where
      ss: "sys_send (take (unat pl) (packet[0 := 0])) w = (None, w1)"
        "\<forall>x\<in>set (send_errs w1). x = None"
      by blast
    from body c count put fl ss have "loop pl data offset (packet[0 := 0]) w1 = Some res"
      by simp
    from ih [OF this] c ss(2) show False by simp
  qed
qed

text \<open>
  Claim C10, as amended: the constructor takes any packet length without a check. For a
  packet length of at least 2 and a message of at most \<^verbatim>\<open>INT_MAX\<close> bytes (the range of the
  \<^verbatim>\<open>int\<close> \<^verbatim>\<open>offset\<close>) the chunk size is positive at every offset inside the message and
  does not pass its end, and \<^verbatim>\<open>send\<close> on a connected socket terminates: it returns, or
  throws the error of a failed write. For a packet length of 1 and a message that is not
  empty the chunk size is 0, and \<^verbatim>\<open>send\<close> does not terminate as long as every write
  succeeds.
\<close>

theorem send_termination:
  "packet_len (TcpSocket_new pl) = pl \<and>
   (is_bound s \<and> is_connected s \<and> 2 \<le> unat (packet_len s) \<and> length data \<le> INT_MAX \<longrightarrow>
      (\<forall>offset < length data.
         0 < unat (chunk_count (packet_len s) (length data) offset) \<and>
         offset + unat (chunk_count (packet_len s) (length data) offset) \<le> length data) \<and>
      (\<exists>r w1. send s data w = Some (r, s, data, w1) \<and>
         (r = Inr () \<or> (\<exists>e. r = Inl (Thrown (WriteFailed e)))))) \<and>
   (is_bound s \<and> is_connected s \<and> packet_len s = 1 \<and> data \<noteq> [] \<and>
    (\<forall>x\<in>set (send_errs w). x = None) \<longrightarrow>
      (\<forall>offset. chunk_count (packet_len s) (length data) offset = 0) \<and> send s data w = None)"
proof (intro conjI impI)
  show "packet_len (TcpSocket_new pl) = pl"
    by (simp add: TcpSocket_new_def)
next
  assume a: "is_bound s \<and> is_connected s \<and> 2 \<le> unat (packet_len s) \<and> length data \<le> INT_MAX"
  then show "\<forall>offset < length data.
         0 < unat (chunk_count (packet_len s) (length data) offset) \<and>
         offset + unat (chunk_count (packet_len s) (length data) offset) \<le> length data"
    using chunk_progress by blast
  from a have "length (replicate (unat (packet_len s)) (0 :: byte)) = unat (packet_len s)"
    by simp
  from send_loop_returns [OF _ _ this, of data 0 w] a
  obtain r w1 where "send_loop (packet_len s) data 0 (replicate (unat (packet_len s)) 0) w = Some (r, w1)"
    "r = Inr () \<or> (\<exists>e. r = Inl (Thrown (WriteFailed e)))"
    by blast
  with a show "\<exists>r w1. send s data w = Some (r, s, data, w1) \<and>
         (r = Inr () \<or> (\<exists>e. r = Inl (Thrown (WriteFailed e))))"
    by (simp add: send_def)
next
  assume a: "is_bound s \<and> is_connected s \<and> packet_len s = 1 \<and> data \<noteq> [] \<and>
    (\<forall>x\<in>set (send_errs w). x = None)"
  then show "\<forall>offset. chunk_count (packet_len s) (length data) offset = 0"
    by (simp add: chunk_count_one)
  have "send_loop 1 data 0 (replicate (unat (1 :: byte)) 0) w = None"
  proof (cases "send_loop 1 data 0 (replicate (unat (1 :: byte)) 0) w")
    case None
    then show ?thesis .
  next
    case (Some res)
    from send_loop_diverges [OF this] a show ?thesis
      by (simp add: INT_MAX_def)
  qed
  with a show "send s data w = None"
    by (simp add: send_def)
qed

text \<open>
  Claim C10, the amended statement at packets of 4 bytes with a message of 4 bytes, and
  at packets of 1 byte with a message of 1 byte.
\<close>

theorem send_termination_witness:
  "is_bound (connected_socket 3 4 4) \<and> is_connected (connected_socket 3 4 4) \<and>
   2 \<le> unat (packet_len (connected_socket 3 4 4)) \<and> length [1, 2, 3, 4 :: byte] \<le> INT_MAX \<and>
   send (connected_socket 3 4 4) [1, 2, 3, 4] idle_wire =
     Some (Inr (), connected_socket 3 4 4, [1, 2, 3, 4],
           \<lparr>sent = [[3, 1, 2, 3], [1, 4, 2, 3]], send_errs = []\<rparr>) \<and>
   is_bound (connected_socket 3 4 1) \<and> is_connected (connected_socket 3 4 1) \<and>
   packet_len (connected_socket 3 4 1) = 1 \<and> [7 :: byte] \<noteq> [] \<and>
   send_errs idle_wire = [] \<and>
   send (connected_socket 3 4 1) [7] idle_wire = None"
proof -
  have h4: "is_bound (connected_socket 3 4 4) \<and> is_connected (connected_socket 3 4 4) \<and>
      2 \<le> unat (packet_len (connected_socket 3 4 4)) \<and> length [1, 2, 3, 4 :: byte] \<le> INT_MAX"
    by (simp add: is_bound_def is_connected_def connected_socket_def INT_MAX_def)
  have h1: "is_bound (connected_socket 3 4 1) \<and> is_connected (connected_socket 3 4 1) \<and>
      packet_len (connected_socket 3 4 1) = 1 \<and> [7 :: byte] \<noteq> [] \<and>
      (\<forall>x\<in>set (send_errs idle_wire). x = None)"
    by (simp add: is_bound_def is_connected_def connected_socket_def idle_wire_def)
  from h4 send_termination [of 4 "connected_socket 3 4 4" "[1, 2, 3, 4]" idle_wire]
  have "\<exists>r w1. send (connected_socket 3 4 4) [1, 2, 3, 4] idle_wire =
      Some (r, connected_socket 3 4 4, [1, 2, 3, 4], w1)"
    by blast
  moreover from h1 send_termination [of 1 "connected_socket 3 4 1" "[7]" idle_wire]
  have "send (connected_socket 3 4 1) [7] idle_wire = None"
    by blast
  ultimately show ?thesis
    using h4 h1 send_two_packets by (simp add: idle_wire_def)
qed

text \<open>
  Claim C10 as stated fails at the packet length 0: the chunk size is the low byte of
  what is left of the message, 5 for a message of 5 bytes, and the first store,
  \<^verbatim>\<open>packet[0] = count\<close>, is outside the empty packet. It also fails at the packet length 1
  when a write fails: \<^verbatim>\<open>send\<close> then throws.
\<close>

theorem chunk_size_counterexample:
  "chunk_count 0 5 0 = 5 \<and>
   send (connected_socket 3 4 0) [1, 2, 3, 4, 5] idle_wire =
     Some (Inl OutOfRange, connected_socket 3 4 0, [1, 2, 3, 4, 5], idle_wire) \<and>
   send (connected_socket 3 4 1) [7] \<lparr>sent = [], send_errs = [Some 32]\<rparr> =
     Some (Inl (Thrown (WriteFailed 32)), connected_socket 3 4 1, [7],
           \<lparr>sent = [], send_errs = []\<rparr>)"
  by (simp add: eval_simps)

section \<open>The read of one packet\<close>

lemma drain_failure: "drain i count packet data = Inl f \<Longrightarrow> f = OutOfRange"
proof (induction i count packet data rule: drain.induct)
  case (1 i count packet data)
  from "1.prems" show ?case
    by (subst (asm) drain.simps) (auto split: if_splits option.splits dest: "1.IH")
qed

lemma sys_recv_Err:
  "sys_recv n es = Some (Inl e, es1) \<Longrightarrow> Err e \<in> set es"
  by (induction n es rule: sys_recv.induct) auto

lemma sys_recv_rest:
  "sys_recv n es = Some (x, es1) \<Longrightarrow> Err e \<in> set es1 \<Longrightarrow> Err e \<in> set es"
  by (induction n es rule: sys_recv.induct) (auto split: if_splits)

lemma recv_loop_thrown:
  assumes "recv_loop pl data packet es = Some res"
  shows "\<forall>t. fst res = Inl (Thrown t) \<longrightarrow> t = ShortRead \<or> (\<exists>e. t = ReadFailed e \<and> Err e \<in> set es)"
  using assms
proof (rule recv_loop.raw_induct
    [where P = "\<lambda>pl data packet es res.
       \<forall>t. fst res = Inl (Thrown t) \<longrightarrow> t = ShortRead \<or> (\<exists>e. t = ReadFailed e \<and> Err e \<in> set es)",
     rotated])
  fix loop :: "byte \<Rightarrow> bytes \<Rightarrow> bytes \<Rightarrow> event list \<Rightarrow> ((failure + bytes) \<times> event list) option"
    and pl data packet es res
  assume ih: "\<And>pl data packet es res. loop pl data packet es = Some res \<Longrightarrow>
       \<forall>t. fst res = Inl (Thrown t) \<longrightarrow> t = ShortRead \<or> (\<exists>e. t = ReadFailed e \<and> Err e \<in> set es)"
  assume body: "(case sys_recv (unat pl) es of
        None \<Rightarrow> None
      | Some (Inl errno, es1) \<Rightarrow> Some (Inl (Thrown (ReadFailed errno)), es1)
      | Some (Inr got, es1) \<Rightarrow>
          if int (length got) \<noteq> uint pl then Some (Inl (Thrown ShortRead), es1)
          else
            (let packet1 = got @ drop (length got) packet in
             case get_at packet1 0 of
               None \<Rightarrow> Some (Inl OutOfRange, es1)
             | Some count \<Rightarrow>
                 (case drain 1 (unat count) packet1 data of
                    Inl f \<Rightarrow> Some (Inl f, es1)
                  | Inr data1 \<Rightarrow>
                      if uint count < uint pl - 1 then Some (Inr data1, es1)
                      else loop pl data1 packet1 es1))) = Some res"
  show "\<forall>t. fst res = Inl (Thrown t) \<longrightarrow> t = ShortRead \<or> (\<exists>e. t = ReadFailed e \<and> Err e \<in> set es)"
  proof (intro allI impI)
    fix t assume t: "fst res = Inl (Thrown t)"
    from body obtain x es1 where sr: "sys_recv (unat pl) es = Some (x, es1)"
      by (cases "sys_recv (unat pl) es") auto
    show "t = ShortRead \<or> (\<exists>e. t = ReadFailed e \<and> Err e \<in> set es)"
    proof (cases x)
      case (Inl errno)
      with body sr t have "t = ReadFailed errno" by auto
      moreover from sr Inl have "Err errno \<in> set es" by (auto dest: sys_recv_Err)
      ultimately show ?thesis by blast
    next
      case (Inr got)
      define packet1 where "packet1 = got @ drop (length got) packet"
      show ?thesis
      proof (cases "int (length got) \<noteq> uint pl")
        case True
        with body sr Inr t show ?thesis by auto
      next
        case full: False
        show ?thesis
        proof (cases "get_at packet1 0")
          case None
          with body sr Inr full t show ?thesis by (auto simp: packet1_def)
        next
          case (Some count)
          show ?thesis
          proof (cases "drain 1 (unat count) packet1 data")
            case (Inl f)
            with drain_failure have "f = OutOfRange" by blast
            with body sr Inr full Some Inl t show ?thesis by (auto simp: packet1_def)
          next
            case dr: (Inr data1)
            show ?thesis
            proof (cases "uint count < uint pl - 1")
              case True
              with body sr Inr full Some dr t show ?thesis by (auto simp: packet1_def)
            next
              case False
              with body sr Inr full Some dr have "loop pl data1 packet1 es1 = Some res"
                by (auto simp: packet1_def)
              from ih [OF this] t have "t = ShortRead \<or> (\<exists>e. t = ReadFailed e \<and> Err e \<in> set es1)"
                by blast
              with sr show ?thesis by (auto dest: sys_recv_rest)
            qed
          qed
        qed
      qed
    qed
  qed
qed

text \<open>
  Claim C8, as amended: every iteration of the loop of \<^verbatim>\<open>recv\<close> makes one call of
  \<^verbatim>\<open>::recv\<close> for \<open>frame_size\<close> bytes and does not wait for more than that call returns.
  It throws the I/O error when the call reports one, and "invalid received packet length"
  (ShortRead) whenever the call returns fewer than \<open>frame_size\<close> bytes: at the peer's
  shutdown, and also when the transport has delivered only a part of the packet so far.
  It does not return while nothing arrives. An I/O error is thrown only when a call
  reported it.
\<close>

theorem frame_read:
  "recv_loop pl data packet (Err e # rest) = Some (Inl (Thrown (ReadFailed e)), rest) \<and>
   (pl \<noteq> 0 \<longrightarrow>
      recv_loop pl data packet (Eof # rest) = Some (Inl (Thrown ShortRead), Eof # rest)) \<and>
   (length bs < unat pl \<longrightarrow>
      recv_loop pl data packet (Seg bs # rest) = Some (Inl (Thrown ShortRead), rest)) \<and>
   recv_loop pl data packet [] = None \<and>
   (recv_loop pl data packet es = Some (Inl (Thrown t), es1) \<longrightarrow>
      t = ShortRead \<or> (\<exists>e. t = ReadFailed e \<and> Err e \<in> set es))"
proof (intro conjI impI)
  show "recv_loop pl data packet (Err e # rest) = Some (Inl (Thrown (ReadFailed e)), rest)"
    by (subst recv_loop.simps) simp
  show "recv_loop pl data packet [] = None"
    by (subst recv_loop.simps) simp
next
  assume "pl \<noteq> 0"
  then have "uint pl \<noteq> 0" by (simp add: uint_0_iff)
  then show "recv_loop pl data packet (Eof # rest) = Some (Inl (Thrown ShortRead), Eof # rest)"
    by (subst recv_loop.simps) simp
next
  assume a: "length bs < unat pl"
  then have "int (length bs) \<noteq> uint pl"
    by (metis nat_int nat_less_le unat_eq_nat_uint)
  with a show "recv_loop pl data packet (Seg bs # rest) = Some (Inl (Thrown ShortRead), rest)"
    by (subst recv_loop.simps) simp
next
  assume "recv_loop pl data packet es = Some (Inl (Thrown t), es1)"
  from recv_loop_thrown [OF this]
  show "t = ShortRead \<or> (\<exists>e. t = ReadFailed e \<and> Err e \<in> set es)"
    by simp
qed

text \<open>
  Claim C8, the amended statement at packets of 4 bytes: a shutdown, and a packet of
  which the first 3 bytes arrive alone.
\<close>

theorem frame_read_witness:
  "(4 :: byte) \<noteq> 0 \<and>
   recv_loop 4 [] [0, 0, 0, 0] [Eof] = Some (Inl (Thrown ShortRead), [Eof]) \<and>
   length [3, 1, 2 :: byte] < unat (4 :: byte) \<and>
   recv_loop 4 [] [0, 0, 0, 0] [Seg [3, 1, 2], Seg [3]] = Some (Inl (Thrown ShortRead), [Seg [3]]) \<and>
   recv_loop 4 [] [0, 0, 0, 0] [Seg [3, 1, 2, 3], Err 104] =
     Some (Inl (Thrown (ReadFailed 104)), []) \<and>
   (ReadFailed 104 = ShortRead \<or> (\<exists>e. ReadFailed 104 = ReadFailed e \<and>
      Err e \<in> set [Seg [3, 1, 2, 3], Err 104]))"
  using frame_read [where pl = 4 and data = "[]" and packet = "[0, 0, 0, 0]" and rest = "[Seg [3]]"
      and bs = "[3, 1, 2]" and es = "[Seg [3, 1, 2, 3], Err 104]" and t = "ReadFailed 104"
      and ?es1.0 = "[]"]
    frame_read [where pl = 4 and data = "[]" and packet = "[0, 0, 0, 0]" and rest = "[]"]
  by (simp add: recv_loop.simps get_at_def drain.simps)

text \<open>
  Claim C8 as stated fails. The packet \<open>[3, 1, 2, 3]\<close> followed by \<open>[1, 4, 2, 3]\<close> is
  received as the message \<open>[1, 2, 3, 4]\<close> when each packet arrives whole. When the
  transport delivers the first packet as 3 bytes and then 1 byte, \<^verbatim>\<open>recv\<close> throws
  "invalid received packet length" with the rest of the stream still to arrive and the
  peer's end open.
\<close>

theorem split_delivery_counterexample:
  "recv (connected_socket 3 4 4) [Seg [3, 1, 2, 3], Seg [1, 4, 2, 3]] =
     Some (Inr [1, 2, 3, 4], []) \<and>
   recv (connected_socket 3 4 4) [Seg [3, 1, 2], Seg [3], Seg [1, 4, 2, 3]] =
     Some (Inl (Thrown ShortRead), [Seg [3], Seg [1, 4, 2, 3]])"
  by (simp add: eval_simps)

section \<open>The packets of a message, and their reception\<close>

text \<open>
  For packets of at least 2 bytes, messages of at most \<^verbatim>\<open>INT_MAX\<close> bytes and writes that
  all succeed, the lemmas of this section say which packets \<^verbatim>\<open>send\<close> writes and what
  \<^verbatim>\<open>recv\<close> makes of them when each arrives whole.
\<close>

lemma fill_content:
  "fill i count offset data p = Inr p1 \<Longrightarrow>
     \<forall>j. i \<le> j \<and> j \<le> count \<longrightarrow> p1 ! j = data ! (j - 1 + offset)"
proof (induction i count offset data p rule: fill.induct)
  case (1 i count offset data packet)
  show ?case
  proof (cases "i \<le> count")
    case False
    then show ?thesis by auto
  next
    case True
    with "1.prems" obtain x p0 where
      g: "\<not> INT_MAX < i - 1 + offset" "get_at data (i - 1 + offset) = Some x"
        "put_at packet i x = Some p0" "fill (i + 1) count offset data p0 = Inr p1"
      by (subst (asm) fill.simps) (auto split: if_splits option.splits)
    from "1.IH" [OF True g(1) g(2) g(3) g(4)]
    have ih: "\<forall>j. i + 1 \<le> j \<and> j \<le> count \<longrightarrow> p1 ! j = data ! (j - 1 + offset)" .
    from g(3) have p0: "p0 = packet[i := x]" "i < length packet"
      by (auto simp: put_at_def split: if_splits)
    from g(2) have x: "x = data ! (i - 1 + offset)"
      by (auto simp: get_at_def split: if_splits)
    from fill_frame [OF g(4)] p0 have "p1 ! i = x" by simp
    show ?thesis
    proof (intro allI impI)
      fix j assume j: "i \<le> j \<and> j \<le> count"
      show "p1 ! j = data ! (j - 1 + offset)"
      proof (cases "j = i")
        case True
        with \<open>p1 ! i = x\<close> x show ?thesis by simp
      next
        case False
        with j have "i + 1 \<le> j \<and> j \<le> count" by simp
        with ih show ?thesis by blast
      qed
    qed
  qed
qed

lemma drain_chunk:
  "count < length packet \<Longrightarrow> 1 \<le> i \<Longrightarrow> i \<le> count + 1 \<Longrightarrow>
     drain i count packet acc = Inr (acc @ take (count + 1 - i) (drop i packet))"
proof (induction i count packet acc rule: drain.induct)
  case (1 i count packet data)
  show ?case
  proof (cases "i \<le> count")
    case False
    with "1.prems" have "count + 1 - i = 0" by simp
    with False show ?thesis by (subst drain.simps) simp
  next
    case True
    with "1.prems" have g: "get_at packet i = Some (packet ! i)"
      by (simp add: get_at_def)
    from "1.IH" [OF True g] "1.prems" True
    have ih: "drain (i + 1) count packet (data @ [packet ! i]) =
        Inr ((data @ [packet ! i]) @ take (count + 1 - (i + 1)) (drop (i + 1) packet))"
      by simp
    from True "1.prems" have "drop i packet = packet ! i # drop (Suc i) packet"
      by (simp add: Cons_nth_drop_Suc)
    moreover from True have "count + 1 - i = Suc (count + 1 - (i + 1))"
      by simp
    ultimately have "take (count + 1 - i) (drop i packet) =
        packet ! i # take (count + 1 - (i + 1)) (drop (i + 1) packet)"
      by simp
    with ih True g show ?thesis
      by (subst drain.simps) simp
  qed
qed


lemma last_short_frame:
  fixes r c :: nat
  assumes "0 < r" and "r < c"
  shows "(r + (c - 1)) div c = 1" and "r mod c \<noteq> 0"
proof -
  from assms have "c \<le> r + (c - 1)" "r + (c - 1) < 2 * c" by simp_all
  then show "(r + (c - 1)) div c = 1"
    by (simp add: div_nat_eqI)
  from assms show "r mod c \<noteq> 0" by simp
qed

lemma full_frame_more:
  fixes r c :: nat
  assumes "0 < c" and "c \<le> r"
  shows "(r + (c - 1)) div c = Suc ((r - c + (c - 1)) div c)" and "(r - c) mod c = r mod c"
proof -
  define m where "m = r - c + (c - 1)"
  from assms have "r + (c - 1) = m + c" by (simp add: m_def)
  moreover from assms(1) have "(m + c) div c = Suc (m div c)"
    using div_add_self2 [of c m] by simp
  ultimately show "(r + (c - 1)) div c = Suc ((r - c + (c - 1)) div c)"
    by (simp only: m_def)
  from assms show "(r - c) mod c = r mod c" by (simp add: le_mod_geq)
qed

text \<open>What one iteration of the chunk loop puts into the packet.\<close>

lemma send_step_chunk:
  assumes len: "length packet = unat pl"
    and put: "put_at packet 0 count = Some packet0"
    and fill: "fill 1 (unat count) offset data packet0 = Inr packet1"
    and k: "unat count < unat pl" "offset + unat count \<le> length data"
  shows "take (unat count) (drop 1 packet1) = take (unat count) (drop offset data)"
proof (rule nth_equalityI)
  from send_step_packet [OF len put fill] have l1: "length packet1 = unat pl" by simp
  with k show "length (take (unat count) (drop 1 packet1)) =
      length (take (unat count) (drop offset data))"
    by simp
  fix i assume "i < length (take (unat count) (drop 1 packet1))"
  then have i: "i < unat count" by simp
  with fill_content [OF fill] have "packet1 ! (i + 1) = data ! (i + 1 - 1 + offset)"
    by simp
  with i k l1 show "take (unat count) (drop 1 packet1) ! i =
      take (unat count) (drop offset data) ! i"
    by (simp add: add.commute)
qed

text \<open>One iteration of the loop of \<^verbatim>\<open>recv\<close> on a packet that arrives whole.\<close>

lemma recv_step:
  assumes "length packet1 = unat pl" and "length pk = unat pl" and "2 \<le> unat pl"
    and "unat (packet1 ! 0) < unat pl"
  shows "recv_loop pl acc pk (Seg packet1 # rest) =
      (if unat (packet1 ! 0) < unat pl - 1
       then Some (Inr (acc @ take (unat (packet1 ! 0)) (drop 1 packet1)), rest)
       else recv_loop pl (acc @ take (unat (packet1 ! 0)) (drop 1 packet1)) packet1 rest)"
proof -
  have g: "get_at packet1 0 = Some (packet1 ! 0)"
    using assms(1,3) by (simp add: get_at_def)
  have d: "drain (Suc 0) (unat (packet1 ! 0)) packet1 acc =
      Inr (acc @ take (unat (packet1 ! 0)) (drop (Suc 0) packet1))"
    using drain_chunk [of "unat (packet1 ! 0)" packet1 1 acc] assms(1,4) by simp
  have "uint pl = int (unat pl)" "uint (packet1 ! 0) = int (unat (packet1 ! 0))"
    by simp_all
  then have t: "uint (packet1 ! 0) < uint pl - 1 \<longleftrightarrow> unat (packet1 ! 0) < unat pl - 1"
    using assms(3) by linarith
  show ?thesis
    by (subst recv_loop.simps) (simp add: assms(1,2) g d t)
qed


lemma send_recv_loops:
  assumes pl: "2 \<le> unat pl" and len: "length data \<le> INT_MAX"
  shows "length packet = unat pl \<Longrightarrow> length pk = unat pl \<Longrightarrow>
     \<forall>x\<in>set (send_errs w). x = None \<Longrightarrow>
     \<exists>new w1. send_loop pl data offset packet w = Some (Inr (), w1) \<and>
        sent w1 = sent w @ new \<and>
        length new = (length data - offset + (unat pl - 1 - 1)) div (unat pl - 1) \<and>
        (\<forall>n < length new.
           unat (new ! n ! 0) = min (unat pl - 1) (length data - offset - n * (unat pl - 1))) \<and>
        recv_loop pl acc pk (map Seg new @ after) =
          (if (length data - offset) mod (unat pl - 1) = 0
           then recv_loop pl (acc @ drop offset data) (last (pk # new)) after
           else Some (Inr (acc @ drop offset data), after))"
proof (induction "length data - offset" arbitrary: offset packet w acc pk rule: less_induct)
  case less
  define c where "c = unat pl - 1"
  from pl have c: "0 < c" by (simp add: c_def)
  show ?case
  proof (cases "offset < length data")
    case False
    then have "send_loop pl data offset packet w = Some (Inr (), w)"
      by (subst send_loop.simps) simp
    moreover from False c have "(length data - offset + (c - 1)) div c = 0"
      by simp
    ultimately show ?thesis
      using False by (intro exI [of _ "[]"] exI [of _ w]) (simp add: c_def)
  next
    case True
    define count where "count = chunk_count pl (length data) offset"
    define k where "k = unat count"
    define r where "r = length data - offset"
    note cp = chunk_progress [OF pl True len, folded count_def, folded k_def]
    from pl have "pl \<noteq> 0" by auto
    moreover from len have "length data < 2 ^ 64" by (simp add: INT_MAX_def)
    ultimately have kmin: "k = min c r"
      using True by (simp add: k_def count_def c_def r_def unat_chunk_count)
    from less.prems(1) pl have put: "put_at packet 0 count = Some (packet[0 := count])"
      by (simp add: put_at_def)
    have "k < length (packet[0 := count])"
      using cp(2) less.prems(1) by simp
    from fill_ok [OF this cp(3) len, of 1]
    obtain packet1 where fl: "fill 1 k offset data (packet[0 := count]) = Inr packet1"
      by auto
    note st = send_step_packet [OF less.prems(1) put fl [unfolded k_def]]
    have chunk: "take k (drop 1 packet1) = take k (drop offset data)"
      using send_step_chunk [OF less.prems(1) put fl [unfolded k_def]] cp(2,3)
      by (simp add: k_def)
    from sys_send_succeeds [OF less.prems(3)] obtain w0 where
      ss: "sys_send (take (unat pl) packet1) w = (None, w0)"
        "\<forall>x\<in>set (send_errs w0). x = None"
      by blast
    from sys_send_cases [OF ss(1)] st(1) have w0: "sent w0 = sent w @ [packet1]"
      by simp
    from cp(3) len have no: "\<not> offset + k > INT_MAX" by simp
    have step: "send_loop pl data offset packet w = send_loop pl data (offset + k) packet1 w0"
      using True put fl ss(1) no
      by (subst send_loop.simps) (simp add: count_def [symmetric] k_def [symmetric])
    from cp(1) True have "length data - (offset + k) < length data - offset"
      by simp
    from less.hyps [OF this st(2) st(2) ss(2), of "acc @ take k (drop 1 packet1)"]
    obtain new w1 where ih:
      "send_loop pl data (offset + k) packet1 w0 = Some (Inr (), w1)"
      "sent w1 = sent w0 @ new"
      "length new = (length data - (offset + k) + (unat pl - 1 - 1)) div (unat pl - 1)"
      "\<forall>n < length new.
         unat (new ! n ! 0) = min (unat pl - 1) (length data - (offset + k) - n * (unat pl - 1))"
      "recv_loop pl (acc @ take k (drop 1 packet1)) packet1 (map Seg new @ after) =
          (if (length data - (offset + k)) mod (unat pl - 1) = 0
           then recv_loop pl ((acc @ take k (drop 1 packet1)) @ drop (offset + k) data)
                  (last (packet1 # new)) after
           else Some (Inr ((acc @ take k (drop 1 packet1)) @ drop (offset + k) data), after))"
      by blast
    have rs: "recv_loop pl acc pk (Seg packet1 # map Seg new @ after) =
      (if k < c
       then Some (Inr (acc @ take k (drop 1 packet1)), map Seg new @ after)
       else recv_loop pl (acc @ take k (drop 1 packet1)) packet1 (map Seg new @ after))"
      using recv_step [OF st(2) less.prems(2) pl, of acc "map Seg new @ after"] st(3) cp(2)
      by (simp add: k_def c_def)
    have joined: "take k (drop offset data) @ drop (offset + k) data = drop offset data"
      by (metis add.commute append_take_drop_id drop_drop)
    have sent: "sent w1 = sent w @ (packet1 # new)"
      using ih(2) w0 by simp
    have first: "unat (packet1 ! 0) = min c r"
      using st(3) kmin by (simp add: k_def)
    show ?thesis
    proof (cases "k < c")
      case short: True
      with kmin have kr: "k = r" by simp
      with True have r: "0 < r" "r < c" using short by (simp_all add: r_def)
      from kr have "length data - (offset + k) = 0" by (simp add: r_def)
      with ih(3) c have "new = []" by (simp add: c_def)
      moreover from kr have "take k (drop offset data) = drop offset data"
        by (simp add: r_def)
      moreover note last_short_frame [OF r]
      ultimately show ?thesis
        using step ih(1) sent rs short chunk first
        by (intro exI [of _ "[packet1]"] exI [of _ w1]) (simp add: c_def r_def)
    next
      case full: False
      with kmin cp(2) have kc: "k = c" "c \<le> r" by (simp_all add: c_def)
      note ar = full_frame_more [OF c kc(2)]
      from kc have "length data - (offset + k) = r - c" by (simp add: r_def)
      with ih(3,5) have n: "length new = (r - c + (c - 1)) div c"
        and rv: "recv_loop pl (acc @ take k (drop 1 packet1)) packet1 (map Seg new @ after) =
          (if (r - c) mod c = 0
           then recv_loop pl ((acc @ take k (drop 1 packet1)) @ drop (offset + k) data)
                  (last (packet1 # new)) after
           else Some (Inr ((acc @ take k (drop 1 packet1)) @ drop (offset + k) data), after))"
        by (simp_all add: c_def)
      have "length (packet1 # new) = (r + (c - 1)) div c"
        using n ar(1) by simp
      moreover have "recv_loop pl acc pk (map Seg (packet1 # new) @ after) =
          (if r mod c = 0
           then recv_loop pl (acc @ drop offset data) (last (pk # packet1 # new)) after
           else Some (Inr (acc @ drop offset data), after))"
        using rs full rv ar(2) chunk joined by simp
      moreover have "\<forall>n < length (packet1 # new).
          unat ((packet1 # new) ! n ! 0) = min c (r - n * c)"
      proof (intro allI impI)
        fix n assume n: "n < length (packet1 # new)"
        show "unat ((packet1 # new) ! n ! 0) = min c (r - n * c)"
        proof (cases n)
          case 0
          with first show ?thesis by simp
        next
          case (Suc m)
          with n ih(4) have "unat (new ! m ! 0) = min c (length data - (offset + k) - m * c)"
            by (simp add: c_def)
          also from kc have "length data - (offset + k) - m * c = r - Suc m * c"
            by (simp add: r_def)
          finally show ?thesis using Suc by simp
        qed
      qed
      ultimately show ?thesis
        using step ih(1) sent
        by (intro exI [of _ "packet1 # new"] exI [of _ w1]) (simp add: c_def r_def)
    qed
  qed
qed


lemma send_frames:
  assumes "is_bound s" and "is_connected s" and "2 \<le> unat (packet_len s)"
    and "length data \<le> INT_MAX" and "\<forall>x\<in>set (send_errs w). x = None"
  shows "\<exists>frames w1. send s data w = Some (Inr (), s, data, w1) \<and>
     sent w1 = sent w @ frames \<and>
     length frames = (length data + (unat (packet_len s) - 1 - 1)) div (unat (packet_len s) - 1) \<and>
     (\<forall>n < length frames.
        unat (frames ! n ! 0) =
          min (unat (packet_len s) - 1) (length data - n * (unat (packet_len s) - 1)))"
proof -
  have "length (replicate (unat (packet_len s)) (0 :: byte)) = unat (packet_len s)"
    by simp
  from send_recv_loops [OF assms(3,4) this this assms(5), of 0 "[]" "[]"]
  obtain new w1 where
    "send_loop (packet_len s) data 0 (replicate (unat (packet_len s)) 0) w = Some (Inr (), w1)"
    "sent w1 = sent w @ new"
    "length new = (length data + (unat (packet_len s) - 1 - 1)) div (unat (packet_len s) - 1)"
    "\<forall>n < length new. unat (new ! n ! 0) =
        min (unat (packet_len s) - 1) (length data - n * (unat (packet_len s) - 1))"
    by auto
  with assms(1,2) show ?thesis
    by (intro exI [of _ new] exI [of _ w1]) (simp add: send_def)
qed

lemma send_then_recv_loop:
  assumes "is_bound a" and "is_connected a" and "is_bound b" and "is_connected b"
    and "packet_len b = packet_len a" and "2 \<le> unat (packet_len a)"
    and "length m \<le> INT_MAX"
  shows "\<exists>frames. send_then_recv a b m after =
     (if length m mod (unat (packet_len a) - 1) = 0
      then map_option fst (recv_loop (packet_len a) m
             (last (replicate (unat (packet_len a)) 0 # frames)) after)
      else Some (Inr m))"
proof -
  have z: "length (replicate (unat (packet_len a)) (0 :: byte)) = unat (packet_len a)"
    by simp
  have i: "\<forall>x\<in>set (send_errs idle_wire). x = None"
    by (simp add: idle_wire_def)
  from send_recv_loops [OF assms(6,7) z z i, of 0 "[]" after]
  obtain new w1 where n:
    "send_loop (packet_len a) m 0 (replicate (unat (packet_len a)) 0) idle_wire = Some (Inr (), w1)"
    "sent w1 = sent idle_wire @ new"
    "recv_loop (packet_len a) [] (replicate (unat (packet_len a)) 0) (map Seg new @ after) =
          (if length m mod (unat (packet_len a) - 1) = 0
           then recv_loop (packet_len a) m (last (replicate (unat (packet_len a)) 0 # new)) after
           else Some (Inr m, after))"
    by auto
  from n(2) have "arrivals w1 after = map Seg new @ after"
    by (simp add: arrivals_def idle_wire_def)
  with n(1,3) assms(1-5) show ?thesis
    by (intro exI [of _ new]) (simp add: send_then_recv_def send_def recv_def)
qed

text \<open>
  A message whose length is not a multiple of the chunk capacity \<open>frame_size - 1\<close> makes
  the round trip, whatever arrives after it.
\<close>

lemma round_trip_partial_chunk:
  assumes "is_bound a" and "is_connected a" and "is_bound b" and "is_connected b"
    and "packet_len b = packet_len a" and "2 \<le> unat (packet_len a)"
    and "length m \<le> INT_MAX" and "length m mod (unat (packet_len a) - 1) \<noteq> 0"
  shows "send_then_recv a b m after = Some (Inr m)"
  using send_then_recv_loop [OF assms(1-7), of after] assms(8) by auto

text \<open>
  A message whose length is a multiple of the chunk capacity, the empty one among them,
  does not: after the last packet of the message \<^verbatim>\<open>recv\<close> is still inside its loop. It
  does not return while the peer is silent, and throws when the peer closes.
\<close>

lemma round_trip_full_chunks:
  assumes "is_bound a" and "is_connected a" and "is_bound b" and "is_connected b"
    and "packet_len b = packet_len a" and "2 \<le> unat (packet_len a)"
    and "length m \<le> INT_MAX" and "length m mod (unat (packet_len a) - 1) = 0"
  shows "send_then_recv a b m [] = None"
    and "send_then_recv a b m [Eof] = Some (Inl (Thrown ShortRead))"
proof -
  have e: "recv_loop (packet_len a) m pk [] = None" for pk
    by (subst recv_loop.simps) simp
  from assms(6) have "uint (packet_len a) \<noteq> 0"
    by (auto simp: uint_0_iff)
  then have f: "recv_loop (packet_len a) m pk [Eof] = Some (Inl (Thrown ShortRead), [Eof])" for pk
    by (subst recv_loop.simps) simp
  from send_then_recv_loop [OF assms(1-7), of "[]"] assms(8) e
  show "send_then_recv a b m [] = None" by auto
  from send_then_recv_loop [OF assms(1-7), of "[Eof]"] assms(8) f
  show "send_then_recv a b m [Eof] = Some (Inl (Thrown ShortRead))" by auto
qed

text \<open>
  A packet that arrives whole with a length byte above \<open>frame_size - 1\<close> always takes
  the copy loop of \<^verbatim>\<open>recv\<close> beyond the end of the packet buffer.
\<close>

lemma drain_out_of_range:
  "length packet \<le> count \<Longrightarrow> i \<le> length packet \<Longrightarrow>
     drain i count packet acc = Inl OutOfRange"
proof (induction i count packet acc rule: drain.induct)
  case (1 i count packet data)
  show ?case
  proof (cases "i < length packet")
    case True
    then have g: "get_at packet i = Some (packet ! i)"
      by (simp add: get_at_def)
    from True "1.prems" have "i \<le> count" by simp
    from "1.IH" [OF this g "1.prems"(1)] True g \<open>i \<le> count\<close> show ?thesis
      by (subst drain.simps) simp
  next
    case False
    with "1.prems" have "i \<le> count" "get_at packet i = None"
      by (simp_all add: get_at_def)
    then show ?thesis
      by (subst drain.simps) simp
  qed
qed

lemma recv_malformed_packet:
  assumes "length packet1 = unat pl" and "length pk = unat pl" and "0 < unat pl"
    and "unat pl \<le> unat (packet1 ! 0)"
  shows "recv_loop pl acc pk (Seg packet1 # rest) = Some (Inl OutOfRange, rest)"
proof -
  have g: "get_at packet1 0 = Some (packet1 ! 0)"
    using assms(1,3) by (simp add: get_at_def)
  have d: "drain (Suc 0) (unat (packet1 ! 0)) packet1 acc = Inl OutOfRange"
    using drain_out_of_range [of packet1 "unat (packet1 ! 0)" 1 acc] assms(1,3,4) by simp
  show ?thesis
    by (subst recv_loop.simps) (simp add: assms(1,2) g d)
qed

text \<open>
  The scenario of \<^verbatim>\<open>nix_tcp_test.cpp\<close>: packets of 32 bytes and the 48 bytes \<open>0..47\<close>;
  48 is not a multiple of 31.
\<close>

lemma test_scenario:
  "send_then_recv (connected_socket 3 4 32) (connected_socket 5 6 32) (map of_nat [0..<48]) [] =
     Some (Inr (map of_nat [0..<48]))"
  by (rule round_trip_partial_chunk)
    (simp_all add: is_bound_def is_connected_def connected_socket_def INT_MAX_def)

end
